theory Spec2Isabelle
  imports Main "HOL-Library.Char_ord"
begin

section \<open>JavaScript strings and numbers\<close>

text \<open>
  The data-generation script is TypeScript.  Its strings are modelled as \<^typ>\<open>string\<close>,
  a list of 8-bit code units (the ASCII and Latin-1 part of JavaScript's UTF-16 code units);
  every literal and every character class of the script is ASCII.  Numbers produced by
  \<open>parseInt\<close> are \<open>NaN\<close> or an integer; the integer is the mathematical value of the
  digits, which is what JavaScript returns below \<open>2^53\<close> (above, a double rounds it).
\<close>

datatype jsnum = NaN | Num int

definition isLineTerminator :: "char \<Rightarrow> bool" where
  "isLineTerminator c = (c = CHR 0x0A \<or> c = CHR 0x0D)"

text \<open>White space as \<open>\s\<close> and \<open>trim\<close> see it: TAB, LF, VT, FF, CR, SP and NBSP.\<close>

definition isWhiteSpace :: "char \<Rightarrow> bool" where
  "isWhiteSpace c = (c = CHR 0x09 \<or> c = CHR 0x0A \<or> c = CHR 0x0B \<or> c = CHR 0x0C
     \<or> c = CHR 0x0D \<or> c = CHR 0x20 \<or> c = CHR 0xA0)"

definition isDigit :: "char \<Rightarrow> bool" where
  "isDigit c = (CHR ''0'' \<le> c \<and> c \<le> CHR ''9'')"

definition isLower :: "char \<Rightarrow> bool" where
  "isLower c = (CHR ''a'' \<le> c \<and> c \<le> CHR ''z'')"

definition isUpper :: "char \<Rightarrow> bool" where
  "isUpper c = (CHR ''A'' \<le> c \<and> c \<le> CHR ''Z'')"

definition isWordChar :: "char \<Rightarrow> bool" where
  "isWordChar c = (isLower c \<or> isUpper c \<or> isDigit c \<or> c = CHR ''_'')"

text \<open>\<open>String.prototype.toLowerCase\<close> on 8-bit code units: A-Z and the Latin-1 capitals.\<close>

definition toLowerChar :: "char \<Rightarrow> char" where
  "toLowerChar c =
     (if isUpper c \<or> (CHR 0xC0 \<le> c \<and> c \<le> CHR 0xDE \<and> c \<noteq> CHR 0xD7)
      then char_of (of_char c + (32::nat)) else c)"

definition toLowerCase :: "string \<Rightarrow> string" where
  "toLowerCase s = map toLowerChar s"

definition trimStart :: "string \<Rightarrow> string" where
  "trimStart s = dropWhile isWhiteSpace s"

definition trim :: "string \<Rightarrow> string" where
  "trim s = rev (dropWhile isWhiteSpace (rev (dropWhile isWhiteSpace s)))"

definition startsWith :: "string \<Rightarrow> string \<Rightarrow> bool" where
  "startsWith s p = (take (length p) s = p)"

text \<open>JavaScript truthiness of a string: the empty string is falsy.\<close>

definition truthy :: "string \<Rightarrow> bool" where
  "truthy s = (s \<noteq> [])"

section \<open>Data model\<close>

text \<open>
  The interfaces of the script.  The optional fields \<open>name\<close> of a bit-field and
  \<open>format\<close> of an instruction are never set by the script and are left out; the
  \<open>value\<close> of a bit-field is always the result of \<open>parseInt\<close>; the \<open>type\<close> of a CSR
  is the constant \<open>csr\<close>; the time stamp of the dataset is left out.
\<close>

record BitField =
  high :: jsnum
  low :: jsnum
  bvalue :: jsnum

datatype InstrType = instruction | csr | pseudo

record Instruction =
  name :: string
  extension :: string
  operands :: "string list"
  encoding :: "BitField list"
  description :: string
  type :: InstrType

record CSR =
  csr_name :: string
  address :: string
  privilege :: string
  csr_description :: string

record Dataset =
  instructions :: "Instruction list"
  csrs :: "CSR list"
  version :: string

section \<open>Merge and assembly (the pure part of \<open>main\<close>)\<close>

text \<open>
  A description map is a JavaScript \<open>Map\<close> from string to string, read with \<open>get\<close> and
  \<open>has\<close> only: a partial function.  \<open>seenInstructions\<close> is a \<open>Map\<close> whose
  \<open>values()\<close> are read in insertion order: an association list, appended to.
\<close>

type_synonym descmap = "string \<rightharpoonup> string"

definition attachInstr :: "descmap \<Rightarrow> Instruction \<Rightarrow> Instruction" where
  "attachInstr instrDescriptions instr =
     (case instrDescriptions (toLowerCase (name instr)) of
        None \<Rightarrow> instr
      | Some desc \<Rightarrow> if truthy desc then instr\<lparr>description := desc\<rparr> else instr)"

definition attachCsr :: "descmap \<Rightarrow> CSR \<Rightarrow> CSR" where
  "attachCsr csrDescriptions c =
     (case csrDescriptions (toLowerCase (csr_name c)) of
        None \<Rightarrow> c
      | Some desc \<Rightarrow> if truthy desc then c\<lparr>csr_description := desc\<rparr> else c)"

definition seen_has :: "(string \<times> Instruction) list \<Rightarrow> string \<Rightarrow> bool" where
  "seen_has seen k = (k \<in> fst ` set seen)"

fun seen_set :: "(string \<times> Instruction) list \<Rightarrow> string \<Rightarrow> Instruction \<Rightarrow> (string \<times> Instruction) list" where
  "seen_set [] k v = [(k, v)]"
| "seen_set ((k', v') # rest) k v =
     (if k' = k then (k, v) # rest else (k', v') # seen_set rest k v)"

fun dedupLoop :: "(string \<times> Instruction) list \<Rightarrow> Instruction list \<Rightarrow> (string \<times> Instruction) list" where
  "dedupLoop seenInstructions [] = seenInstructions"
| "dedupLoop seenInstructions (instr # rest) =
     dedupLoop (if \<not> seen_has seenInstructions (name instr)
                then seen_set seenInstructions (name instr) instr
                else seenInstructions) rest"

definition finalInstructions :: "Instruction list \<Rightarrow> Instruction list" where
  "finalInstructions instrs = map snd (dedupLoop [] instrs)"

definition assemble :: "Instruction list \<Rightarrow> CSR list \<Rightarrow> descmap \<Rightarrow> descmap \<Rightarrow> Dataset" where
  "assemble instrs cs instrDescriptions csrDescriptions =
     \<lparr>instructions = finalInstructions (map (attachInstr instrDescriptions) instrs),
      csrs = map (attachCsr csrDescriptions) cs,
      version = ''1.0.0''\<rparr>"

text \<open>The invariant of the deduplication loop: keys are distinct and each is its record's name.\<close>

definition seen_ok :: "(string \<times> Instruction) list \<Rightarrow> bool" where
  "seen_ok seen = (distinct (map fst seen) \<and> map fst seen = map (name \<circ> snd) seen)"

section \<open>Regular expressions\<close>

text \<open>
  The script's regular expressions are modelled by a backtracking matcher with the
  semantics of ECMAScript: alternatives are tried left to right, quantifiers are greedy
  and give characters back one at a time, a search tries every start position from the
  left.  The matcher returns every way to match at a position, in the order in which a
  backtracking engine finds them; the first is the match.  Every quantifier of the script
  with no upper bound applies to a single character class, so \<open>Rep\<close> takes a class.
\<close>

datatype cls =
    Dot
  | Chr char
  | Range char char
  | Digit
  | WordCh
  | Space
  | NonSpace
  | AnyOf "cls list"
  | NoneOf "cls list"

text \<open>
  \<open>Canonicalize\<close> of the \<open>i\<close> flag: upper case for a-z.  A code unit above 0x7F never
  canonicalizes to an ASCII one, and the classes of the script are ASCII.
\<close>

definition canon :: "char \<Rightarrow> char" where
  "canon c = (if isLower c then char_of (of_char c - (32::nat)) else c)"

fun cls_mem :: "bool \<Rightarrow> cls \<Rightarrow> char \<Rightarrow> bool" where
  "cls_mem ic Dot c = (\<not> isLineTerminator c)"
| "cls_mem ic (Chr a) c = (if ic then canon a = canon c else a = c)"
| "cls_mem ic (Range a b) c =
     ((a \<le> c \<and> c \<le> b) \<or>
      (ic \<and> ((isLower c \<and> a \<le> canon c \<and> canon c \<le> b) \<or>
              (isUpper c \<and> a \<le> toLowerChar c \<and> toLowerChar c \<le> b))))"
| "cls_mem ic Digit c = isDigit c"
| "cls_mem ic WordCh c = isWordChar c"
| "cls_mem ic Space c = isWhiteSpace c"
| "cls_mem ic NonSpace c = (\<not> isWhiteSpace c)"
| "cls_mem ic (AnyOf cs) c = list_ex (\<lambda>k. cls_mem ic k c) cs"
| "cls_mem ic (NoneOf cs) c = (\<not> list_ex (\<lambda>k. cls_mem ic k c) cs)"

datatype rx =
    One cls
  | Lit string
  | Seq rx rx
  | Alt rx rx
  | Opt rx
  | Rep nat "nat option" cls
  | Grp rx
  | Bol
  | Eol

text \<open>
  A matcher state: the character before the position (for \<open>^\<close>), the rest of the input,
  and the captured groups so far, in the order of the groups.
\<close>

type_synonym mstate = "char option \<times> string \<times> string list"

definition advance :: "mstate \<Rightarrow> nat \<Rightarrow> mstate" where
  "advance s n = (case s of (p, r, g) \<Rightarrow>
     (if n = 0 then p else Some (r ! (n - 1)), drop n r, g))"

definition lit_ok :: "bool \<Rightarrow> string \<Rightarrow> string \<Rightarrow> bool" where
  "lit_ok ic l r = (length l \<le> length r \<and> list_all2 (\<lambda>a c. cls_mem ic (Chr a) c) l (take (length l) r))"

fun rxm :: "bool \<Rightarrow> bool \<Rightarrow> rx \<Rightarrow> mstate \<Rightarrow> mstate list" where
  "rxm ic ml (One k) (p, r, g) =
     (case r of [] \<Rightarrow> [] | c # cs \<Rightarrow> if cls_mem ic k c then [(Some c, cs, g)] else [])"
| "rxm ic ml (Lit l) (p, r, g) =
     (if lit_ok ic l r then [advance (p, r, g) (length l)] else [])"
| "rxm ic ml (Seq a b) s = concat (map (rxm ic ml b) (rxm ic ml a s))"
| "rxm ic ml (Alt a b) s = rxm ic ml a s @ rxm ic ml b s"
| "rxm ic ml (Opt a) s = rxm ic ml a s @ [s]"
| "rxm ic ml (Rep lo hi k) (p, r, g) =
     map (advance (p, r, g))
       (rev [lo ..< Suc (case hi of None \<Rightarrow> length (takeWhile (cls_mem ic k) r)
                          | Some h \<Rightarrow> min h (length (takeWhile (cls_mem ic k) r)))])"
| "rxm ic ml (Grp a) (p, r, g) =
     map (\<lambda>s'. case s' of (p', r', g') \<Rightarrow> (p', r', g' @ [take (length r - length r') r]))
       (rxm ic ml a (p, r, g))"
| "rxm ic ml Bol (p, r, g) =
     (case p of None \<Rightarrow> [(p, r, g)]
      | Some c \<Rightarrow> if ml \<and> isLineTerminator c then [(p, r, g)] else [])"
| "rxm ic ml Eol (p, r, g) =
     (case r of [] \<Rightarrow> [(p, r, g)]
      | c # cs \<Rightarrow> if ml \<and> isLineTerminator c then [(p, r, g)] else [])"

definition Star :: "cls \<Rightarrow> rx" where "Star k = Rep 0 None k"
definition Plus :: "cls \<Rightarrow> rx" where "Plus k = Rep 1 None k"

fun seqs :: "rx list \<Rightarrow> rx" where
  "seqs [] = Lit []"
| "seqs [r] = r"
| "seqs (r # rs) = Seq r (seqs rs)"

fun alts :: "rx list \<Rightarrow> rx" where
  "alts [] = Lit []"
| "alts [r] = r"
| "alts (r # rs) = Alt r (alts rs)"

text \<open>A compiled regular expression: the \<open>i\<close> flag, the \<open>m\<close> flag, the pattern.\<close>

type_synonym regexp = "bool \<times> bool \<times> rx"

text \<open>The match at one position, if any: its length and its groups.\<close>

definition rx_at :: "regexp \<Rightarrow> char option \<Rightarrow> string \<Rightarrow> (nat \<times> string list) option" where
  "rx_at re p r = (case re of (ic, ml, e) \<Rightarrow>
     (case rxm ic ml e (p, r, []) of
        [] \<Rightarrow> None
      | s' # _ \<Rightarrow> (case s' of (p', r', g) \<Rightarrow> Some (length r - length r', g))))"

text \<open>
  \<open>RegExp.prototype.exec\<close> from a position: the leftmost start at which the pattern
  matches, with the offset of that start, the length of the match and the groups.
\<close>

fun rx_exec :: "regexp \<Rightarrow> char option \<Rightarrow> string \<Rightarrow> (nat \<times> nat \<times> string list) option" where
  "rx_exec re p [] = (case rx_at re p [] of None \<Rightarrow> None | Some (n, g) \<Rightarrow> Some (0, n, g))"
| "rx_exec re p (c # cs) =
     (case rx_at re p (c # cs) of
        Some (n, g) \<Rightarrow> Some (0, n, g)
      | None \<Rightarrow> (case rx_exec re (Some c) cs of
                  None \<Rightarrow> None
                | Some (i, n, g) \<Rightarrow> Some (Suc i, n, g)))"

text \<open>\<open>str.match(re)\<close> without the \<open>g\<close> flag: the groups of the first match.\<close>

definition rx_match :: "regexp \<Rightarrow> string \<Rightarrow> string list option" where
  "rx_match re s = (case rx_exec re None s of None \<Rightarrow> None | Some (i, n, g) \<Rightarrow> Some g)"

definition rx_test :: "regexp \<Rightarrow> string \<Rightarrow> bool" where
  "rx_test re s = (rx_exec re None s \<noteq> None)"

text \<open>\<open>str.search(re)\<close>: the index of the first match, \<open>None\<close> for -1.\<close>

definition rx_search :: "regexp \<Rightarrow> string \<Rightarrow> nat option" where
  "rx_search re s = (case rx_exec re None s of None \<Rightarrow> None | Some (i, n, g) \<Rightarrow> Some i)"

text \<open>A group by its number (from 1); a group that did not take part is the empty string.\<close>

definition grp :: "string list \<Rightarrow> nat \<Rightarrow> string" where
  "grp g k = (if 0 < k \<and> k \<le> length g then g ! (k - 1) else [])"

text \<open>
  \<open>str.replace(re, template)\<close> with the \<open>g\<close> flag, the template given as a function of
  the groups.  After an empty match the scan moves on by one character.
\<close>

function rx_replace :: "regexp \<Rightarrow> (string list \<Rightarrow> string) \<Rightarrow> char option \<Rightarrow> string \<Rightarrow> string" where
  "rx_replace re tmpl p [] = (case rx_at re p [] of None \<Rightarrow> [] | Some (n, g) \<Rightarrow> tmpl g)"
| "rx_replace re tmpl p (c # cs) =
     (case rx_at re p (c # cs) of
        None \<Rightarrow> c # rx_replace re tmpl (Some c) cs
      | Some (n, g) \<Rightarrow>
          if n = 0 then tmpl g @ c # rx_replace re tmpl (Some c) cs
          else tmpl g @ rx_replace re tmpl (Some ((c # cs) ! (n - 1))) (drop n (c # cs)))"
  by pat_completeness auto
termination
  by (relation "measure (\<lambda>(re, tmpl, p, s). length s)") auto

text \<open>
  \<open>str.matchAll(re)\<close>: every match from left to right, with its index, its text and its
  groups.  \<open>k\<close> is the index of the position the scan is at.
\<close>

function rx_matchAll :: "regexp \<Rightarrow> nat \<Rightarrow> char option \<Rightarrow> string \<Rightarrow> (nat \<times> string \<times> string list) list" where
  "rx_matchAll re k p s =
     (case rx_exec re p s of
        None \<Rightarrow> []
      | Some (i, n, g) \<Rightarrow>
          (k + i, take n (drop i s), g) #
          (if i + max 1 n \<le> length s
           then rx_matchAll re (k + i + max 1 n) (Some (s ! (i + max 1 n - 1))) (drop (i + max 1 n) s)
           else []))"
  by pat_completeness auto
termination
  by (relation "measure (\<lambda>(re, k, p, s). length s)") auto

declare rx_matchAll.simps [simp del]

text \<open>
  \<open>str.split(re)\<close> for a pattern that matches no empty string: the pieces between the
  matches, an empty piece where the input starts or ends with a match.
\<close>

function rx_split :: "regexp \<Rightarrow> char option \<Rightarrow> string \<Rightarrow> string \<Rightarrow> string list" where
  "rx_split re p cur [] = [cur]"
| "rx_split re p cur (c # cs) =
     (case rx_at re p (c # cs) of
        None \<Rightarrow> rx_split re (Some c) (cur @ [c]) cs
      | Some (n, g) \<Rightarrow>
          if n = 0 then rx_split re (Some c) (cur @ [c]) cs
          else cur # rx_split re (Some ((c # cs) ! (n - 1))) [] (drop n (c # cs)))"
  by pat_completeness auto
termination
  by (relation "measure (\<lambda>(re, p, cur, s). length s)") auto

text \<open>\<open>str.split(sep)\<close> for a non-empty separator string.\<close>

fun str_split :: "string \<Rightarrow> string \<Rightarrow> string \<Rightarrow> string list" where
  "str_split sep cur [] = [cur]"
| "str_split sep cur (c # cs) =
     (if sep \<noteq> [] \<and> startsWith (c # cs) sep
      then cur # str_split sep [] (drop (length sep) (c # cs))
      else str_split sep (cur @ [c]) cs)"

text \<open>\<open>parts.join(sep)\<close>.\<close>

fun join :: "string \<Rightarrow> string list \<Rightarrow> string" where
  "join sep [] = []"
| "join sep [x] = x"
| "join sep (x # xs) = x @ sep @ join sep xs"

text \<open>\<open>str.includes(c)\<close> for a one-character string.\<close>

definition includes_char :: "string \<Rightarrow> char \<Rightarrow> bool" where
  "includes_char s c = (c \<in> set s)"

text \<open>\<open>str.slice(a, b)\<close> for indices that are not negative.\<close>

definition slice :: "string \<Rightarrow> nat \<Rightarrow> nat \<Rightarrow> string" where
  "slice s a b = take (b - a) (drop a s)"

section \<open>parseInt\<close>

definition digitVal :: "char \<Rightarrow> nat option" where
  "digitVal c =
     (if isDigit c then Some (of_char c - 48)
      else if isLower c then Some (of_char c - 87)
      else if isUpper c then Some (of_char c - 55)
      else None)"

definition isRadixDigit :: "nat \<Rightarrow> char \<Rightarrow> bool" where
  "isRadixDigit R c = (case digitVal c of None \<Rightarrow> False | Some d \<Rightarrow> d < R)"

definition digitsValue :: "nat \<Rightarrow> string \<Rightarrow> nat" where
  "digitsValue R ds = foldl (\<lambda>acc c. acc * R + (case digitVal c of None \<Rightarrow> 0 | Some d \<Rightarrow> d)) 0 ds"

text \<open>
  \<open>parseInt(s, radix)\<close> for radix 16 and for no radix (\<open>None\<close>): leading white space and a
  sign are skipped, a \<open>0x\<close> or \<open>0X\<close> prefix selects (or is allowed by) radix 16, the
  longest prefix of digits is read, and no digit at all gives \<open>NaN\<close>.
\<close>

definition parseInt :: "string \<Rightarrow> nat option \<Rightarrow> jsnum" where
  "parseInt str radix =
     (case trimStart str of s \<Rightarrow>
      (case (if s \<noteq> [] \<and> hd s = CHR ''-'' then (-1::int) else 1) of sign \<Rightarrow>
      (case (if s \<noteq> [] \<and> (hd s = CHR ''+'' \<or> hd s = CHR ''-'') then tl s else s) of s1 \<Rightarrow>
      (case (if (radix = None \<or> radix = Some 16) \<and> (startsWith s1 ''0x'' \<or> startsWith s1 ''0X'')
             then (16, drop 2 s1)
             else (case radix of None \<Rightarrow> 10 | Some R \<Rightarrow> R, s1)) of (R, s2) \<Rightarrow>
      (case takeWhile (isRadixDigit R) s2 of
         [] \<Rightarrow> NaN
       | d # ds \<Rightarrow> Num (sign * int (digitsValue R (d # ds))))))))"

section \<open>Encoding-line grammar\<close>

definition KNOWN_OPERANDS :: "string list" where
  "KNOWN_OPERANDS =
    [''rd'', ''rs1'', ''rs2'', ''rs3'',
     ''imm12'', ''imm20'', ''jimm20'',
     ''bimm12hi'', ''bimm12lo'',
     ''simm12hi'', ''simm12lo'',
     ''shamtw'', ''shamtd'', ''shamt'',
     ''rm'', ''aq'', ''rl'',
     ''pred'', ''succ'',
     ''csr'', ''zimm'',
     ''fm'',
     ''rd_p'', ''rs1_p'', ''rs2_p'',
     ''c_nzuimm10'', ''c_uimm8sp_s'', ''c_uimm8sp'', ''c_uimm7lo'', ''c_uimm7hi'',
     ''c_imm6lo'', ''c_imm6hi'', ''c_nzimm6lo'', ''c_nzimm6hi'',
     ''c_nzuimm5'', ''c_nzuimm6lo'', ''c_nzuimm6hi'',
     ''c_uimm8lo'', ''c_uimm8hi'', ''c_uimm9lo'', ''c_uimm9hi'',
     ''c_nzimm10hi'', ''c_nzimm10lo'', ''c_nzimm18hi'', ''c_nzimm18lo'',
     ''c_imm12'', ''c_bimm9lo'', ''c_bimm9hi'',
     ''c_nzimm5'', ''c_spimm'',
     ''c_index'', ''c_rlist'', ''c_spimm'',
     ''vd'', ''vs1'', ''vs2'', ''vs3'', ''vm'', ''nf'', ''wd'',
     ''simm5'', ''zimm10'', ''zimm11'', ''zimm5'']"

text \<open>\<open>/\s+/\<close>\<close>

definition wsRe :: regexp where
  "wsRe = (False, False, Plus Space)"

text \<open>\<open>/^(\d+)\.\.(\d+)=(.+)$/\<close>\<close>

definition rangeRe :: regexp where
  "rangeRe = (False, False,
     seqs [Bol, Grp (Plus Digit), Lit ''..'', Grp (Plus Digit), Lit ''='', Grp (Plus Dot), Eol])"

text \<open>\<open>/^(\d+)=(.+)$/\<close>\<close>

definition singleRe :: regexp where
  "singleRe = (False, False, seqs [Bol, Grp (Plus Digit), Lit ''='', Grp (Plus Dot), Eol])"

text \<open>\<open>value.startsWith('0x') ? parseInt(value, 16) : parseInt(value)\<close>\<close>

definition fieldValue :: "string \<Rightarrow> jsnum" where
  "fieldValue v = (if startsWith v ''0x'' then parseInt v (Some 16) else parseInt v None)"

text \<open>
  The loop of \<open>parseEncodingLine\<close> over the parts, with the two arrays it pushes to.
  The last test of the loop body, for a named field, has an empty branch: any other part
  is dropped.
\<close>

fun encodingLoop :: "string list \<times> BitField list \<Rightarrow> string list \<Rightarrow> string list \<times> BitField list" where
  "encodingLoop acc [] = acc"
| "encodingLoop (ops, enc) (part # rest) =
     (if part \<in> set KNOWN_OPERANDS then encodingLoop (ops @ [part], enc) rest
      else case rx_match rangeRe part of
        Some g \<Rightarrow>
          encodingLoop (ops, enc @ [\<lparr>high = parseInt (grp g 1) None, low = parseInt (grp g 2) None,
                                      bvalue = fieldValue (grp g 3)\<rparr>]) rest
      | None \<Rightarrow>
         (case rx_match singleRe part of
            Some g \<Rightarrow>
              encodingLoop (ops, enc @ [\<lparr>high = parseInt (grp g 1) None, low = parseInt (grp g 1) None,
                                          bvalue = fieldValue (grp g 2)\<rparr>]) rest
          | None \<Rightarrow> encodingLoop (ops, enc) rest))"

text \<open>The result is the pair \<open>(operands, encoding)\<close>.\<close>

definition parseEncodingLine :: "string \<Rightarrow> string list \<times> BitField list" where
  "parseEncodingLine line = encodingLoop ([], []) (rx_split wsRe None [] line)"

section \<open>Opcode-file parser\<close>

text \<open>\<open>/\$pseudo_op\s+\S+\s+(\w+)\s+(.*)/\<close>\<close>

definition pseudoRe :: regexp where
  "pseudoRe = (False, False,
     seqs [Lit ''$pseudo_op'', Plus Space, Plus NonSpace, Plus Space, Grp (Plus WordCh),
           Plus Space, Grp (Star Dot)])"

text \<open>\<open>/^[a-z0-9_.]+$/i\<close>\<close>

definition nameRe :: regexp where
  "nameRe = (True, False,
     seqs [Bol, Plus (AnyOf [Range CHR ''a'' CHR ''z'', Range CHR ''0'' CHR ''9'', Chr CHR ''_'', Chr CHR ''.'']), Eol])"

text \<open>The body of the loop of \<open>parseOpcodeFile\<close>: the records one line pushes.\<close>

definition parseOpcodeLine :: "string \<Rightarrow> string \<Rightarrow> Instruction list" where
  "parseOpcodeLine line ext =
     (case trim line of trimmed \<Rightarrow>
      if trimmed = [] \<or> startsWith trimmed ''#'' \<or> startsWith trimmed ''@'' then []
      else if startsWith trimmed ''$pseudo_op'' then
        (case rx_match pseudoRe trimmed of
           None \<Rightarrow> []
         | Some g \<Rightarrow>
            (case parseEncodingLine (grp g 2) of (ops, enc) \<Rightarrow>
               [\<lparr>name = grp g 1, extension = ext, operands = ops, encoding = enc,
                 description = [], type = pseudo\<rparr>]))
      else if startsWith trimmed ''$import'' then []
      else
        (case rx_split wsRe None [] trimmed of parts \<Rightarrow>
         if length parts < 2 then []
         else if \<not> rx_test nameRe (parts ! 0) then []
         else
           (case parseEncodingLine (join '' '' (tl parts)) of (ops, enc) \<Rightarrow>
              if length enc > 0
              then [\<lparr>name = parts ! 0, extension = ext, operands = ops, encoding = enc,
                     description = [], type = instruction\<rparr>]
              else [])))"

definition parseOpcodeFile :: "string \<Rightarrow> string \<Rightarrow> Instruction list" where
  "parseOpcodeFile content ext =
     concat (map (\<lambda>line. parseOpcodeLine line ext) (str_split [CHR 0x0A] [] content))"

section \<open>Register-table parser\<close>

text \<open>\<open>/^(0x[0-9A-Fa-f]+),\s*"([^"]+)"/\<close>\<close>

definition csvRe :: regexp where
  "csvRe = (False, False,
     seqs [Bol,
           Grp (Seq (Lit ''0x'') (Plus (AnyOf [Range CHR ''0'' CHR ''9'', Range CHR ''A'' CHR ''F'', Range CHR ''a'' CHR ''f'']))),
           Lit '','', Star Space, Lit [CHR 0x22], Grp (Plus (NoneOf [Chr (CHR 0x22)])), Lit [CHR 0x22]])"

text \<open>Comparisons of a number with a constant; every comparison with \<open>NaN\<close> is false.\<close>

definition num_ge :: "jsnum \<Rightarrow> int \<Rightarrow> bool" where
  "num_ge x k = (case x of NaN \<Rightarrow> False | Num n \<Rightarrow> n \<ge> k)"

definition num_lt :: "jsnum \<Rightarrow> int \<Rightarrow> bool" where
  "num_lt x k = (case x of NaN \<Rightarrow> False | Num n \<Rightarrow> n < k)"

text \<open>The chain of comparisons in \<open>parseCSVFile\<close> that infers the privilege from the address.\<close>

definition privilegeOf :: "jsnum \<Rightarrow> string" where
  "privilegeOf addr =
     (if num_ge addr 0x100 \<and> num_lt addr 0x200 then ''S''
      else if num_ge addr 0x200 \<and> num_lt addr 0x300 then ''H''
      else if num_ge addr 0x300 \<and> num_lt addr 0x400 then ''M''
      else if num_ge addr 0x500 \<and> num_lt addr 0x600 then ''S''
      else if num_ge addr 0x600 \<and> num_lt addr 0x700 then ''H''
      else if num_ge addr 0x700 \<and> num_lt addr 0x800 then ''M''
      else if num_ge addr 0xB00 \<and> num_lt addr 0xC00 then ''M''
      else if num_ge addr 0xC00 \<and> num_lt addr 0xD00 then ''U''
      else if num_ge addr 0xF00 then ''M''
      else ''U'')"

definition parseCSVLine :: "string \<Rightarrow> CSR list" where
  "parseCSVLine line =
     (case trim line of trimmed \<Rightarrow>
      if trimmed = [] \<or> startsWith trimmed ''#'' then []
      else
        (case rx_match csvRe trimmed of
           None \<Rightarrow> []
         | Some g \<Rightarrow>
            [\<lparr>csr_name = grp g 2, address = grp g 1,
              privilege = privilegeOf (parseInt (grp g 1) (Some 16)),
              csr_description = []\<rparr>]))"

definition parseCSVFile :: "string \<Rightarrow> CSR list" where
  "parseCSVFile content = concat (map parseCSVLine (str_split [CHR 0x0A] [] content))"

section \<open>Markup cleaning\<close>

text \<open>\<open>/\[#norm:[^\]]+\]#([^#]+)#/g\<close>\<close>

definition normSpanRe :: regexp where
  "normSpanRe = (False, False,
     seqs [Lit ''[#norm:'', Plus (NoneOf [Chr CHR '']'']), Lit '']#'',
           Grp (Plus (NoneOf [Chr CHR ''#''])), Lit ''#''])"

text \<open>\<open>/<<[^>]+>>/g\<close>\<close>

definition xrefRe :: regexp where
  "xrefRe = (False, False, seqs [Lit ''<<'', Plus (NoneOf [Chr CHR ''>'']), Lit ''>>''])"

text \<open>\<open>/\[\[[^\]]+\]\]/g\<close>\<close>

definition anchorRe :: regexp where
  "anchorRe = (False, False, seqs [Lit ''[['', Plus (NoneOf [Chr CHR '']'']), Lit '']]''])"

text \<open>\<open>/\*\*([^*]+)\*\*/g\<close>\<close>

definition boldRe :: regexp where
  "boldRe = (False, False, seqs [Lit ''**'', Grp (Plus (NoneOf [Chr CHR ''*''])), Lit ''**''])"

text \<open>\<open>/\*([^*]+)\*/g\<close>\<close>

definition starRe :: regexp where
  "starRe = (False, False, seqs [Lit ''*'', Grp (Plus (NoneOf [Chr CHR ''*''])), Lit ''*''])"

text \<open>\<open>/_([^_]+)_/g\<close>\<close>

definition underscoreRe :: regexp where
  "underscoreRe = (False, False, seqs [Lit ''_'', Grp (Plus (NoneOf [Chr CHR ''_''])), Lit ''_''])"

text \<open>The pattern of inline code: a backquote, \<open>([^`]+)\<close>, a backquote, with the \<open>g\<close> flag.\<close>

definition codeRe :: regexp where
  "codeRe = (False, False, seqs [Lit [CHR 0x60], Grp (Plus (NoneOf [Chr (CHR 0x60)])), Lit [CHR 0x60]])"

text \<open>\<open>/footnote:\[[^\]]*\]/g\<close>\<close>

definition footnoteRe :: regexp where
  "footnoteRe = (False, False, seqs [Lit ''footnote:['', Star (NoneOf [Chr CHR '']'']), Lit '']''])"

text \<open>\<open>/^\[%[^\]]+\]\s*/gm\<close>\<close>

definition attrRe :: regexp where
  "attrRe = (False, True, seqs [Bol, Lit ''[%'', Plus (NoneOf [Chr CHR '']'']), Lit '']'', Star Space])"

text \<open>\<open>/^:.*$/gm\<close>\<close>

definition colonLineRe :: regexp where
  "colonLineRe = (False, True, seqs [Bol, Lit '':'', Star Dot, Eol])"

text \<open>\<open>/\s+/g\<close>\<close>

definition wsRunRe :: regexp where
  "wsRunRe = (False, False, Plus Space)"

text \<open>The chain of \<open>replace\<close> calls of \<open>cleanAdocText\<close>, in order, each with its template.\<close>

definition cleanStages :: "(regexp \<times> (string list \<Rightarrow> string)) list" where
  "cleanStages =
    [(normSpanRe, \<lambda>g. grp g 1),
     (xrefRe, \<lambda>g. []),
     (anchorRe, \<lambda>g. []),
     (boldRe, \<lambda>g. grp g 1),
     (starRe, \<lambda>g. grp g 1),
     (underscoreRe, \<lambda>g. grp g 1),
     (codeRe, \<lambda>g. grp g 1),
     (footnoteRe, \<lambda>g. []),
     (attrRe, \<lambda>g. []),
     (colonLineRe, \<lambda>g. []),
     (wsRunRe, \<lambda>g. '' '')]"

definition cleanAdocText :: "string \<Rightarrow> string" where
  "cleanAdocText text =
     trim (foldl (\<lambda>t stage. rx_replace (fst stage) (snd stage) None t) text cleanStages)"

section \<open>Prose-extraction engine\<close>

text \<open>\<open>/\[#norm:([a-z0-9_]+)_(?:op|desc|enc|behavior)[^\]]*\]#([^#]+)#/gi\<close>\<close>

definition normRe :: regexp where
  "normRe = (True, False,
     seqs [Lit ''[#norm:'',
           Grp (Plus (AnyOf [Range CHR ''a'' CHR ''z'', Range CHR ''0'' CHR ''9'', Chr CHR ''_''])),
           Lit ''_'',
           alts [Lit ''op'', Lit ''desc'', Lit ''enc'', Lit ''behavior''],
           Star (NoneOf [Chr CHR '']'']), Lit '']#'',
           Grp (Plus (NoneOf [Chr CHR ''#''])), Lit ''#''])"

text \<open>\<open>/^(={2,4})\s+([A-Z][A-Z0-9.]+)\s*$/gm\<close>\<close>

definition sectionRe :: regexp where
  "sectionRe = (False, True,
     seqs [Bol, Grp (Rep 2 (Some 4) (Chr CHR ''='')), Plus Space,
           Grp (Seq (One (Range CHR ''A'' CHR ''Z''))
                    (Plus (AnyOf [Range CHR ''A'' CHR ''Z'', Range CHR ''0'' CHR ''9'', Chr CHR ''.'']))),
           Star Space, Eol])"

text \<open>\<open>new RegExp(`^={2,${headingLevel}}\\s+`, 'm')\<close>\<close>

definition nextHeadingRegex :: "nat \<Rightarrow> regexp" where
  "nextHeadingRegex headingLevel =
     (False, True, seqs [Bol, Rep 2 (Some headingLevel) (Chr CHR ''=''), Plus Space])"

text \<open>A word with an optional final \<open>s\<close>, as in \<open>performs?\<close>.\<close>

definition optS :: "string \<Rightarrow> rx" where
  "optS w = Seq (Lit w) (Opt (One (Chr CHR ''s'')))"

definition verbs :: rx where
  "verbs = alts [optS ''perform'', Lit ''is'', optS ''compute'', optS ''load'', optS ''store'',
     optS ''write'', optS ''read'', optS ''set'', optS ''clear'', optS ''add'', optS ''subtract'',
     optS ''multiplie'', optS ''divide'', optS ''shift'', optS ''rotate'', optS ''branche'',
     optS ''jump'', optS ''call'', optS ''return'', Lit ''atomically'', optS ''sign-extend'',
     optS ''zero-extend'']"

text \<open>
  The prose pattern, with the flags \<open>gi\<close>: \<open>(?:^|\.\s+)(?:The\s+)?\<close>, an optional
  backquote, \<open>([A-Z][A-Z0-9.]*)\<close>, an optional backquote, \<open>\s+(?:instruction\s+)?\<close>, one
  of the verbs, and \<open>([^.]+\.)\<close>.
\<close>

definition proseRe :: regexp where
  "proseRe = (True, False,
     seqs [Alt Bol (Seq (Lit ''.'') (Plus Space)),
           Opt (Seq (Lit ''The'') (Plus Space)),
           Opt (One (Chr (CHR 0x60))),
           Grp (Seq (One (Range CHR ''A'' CHR ''Z''))
                    (Star (AnyOf [Range CHR ''A'' CHR ''Z'', Range CHR ''0'' CHR ''9'', Chr CHR ''.'']))),
           Opt (One (Chr (CHR 0x60))),
           Plus Space,
           Opt (Seq (Lit ''instruction'') (Plus Space)),
           verbs,
           Grp (Seq (Plus (NoneOf [Chr CHR ''.''])) (Lit ''.''))])"

text \<open>
  The CSR heading pattern, with the flags \<open>gim\<close>: \<open>^(={2,4})\s+(?:The\s+)?\<close>, an
  optional backquote, \<open>([a-z][a-z0-9_]*)\<close>, an optional backquote,
  \<open>\s+(?:Register|CSR)?\s*$\<close>.
\<close>

definition csrSectionRe :: regexp where
  "csrSectionRe = (True, True,
     seqs [Bol, Grp (Rep 2 (Some 4) (Chr CHR ''='')), Plus Space,
           Opt (Seq (Lit ''The'') (Plus Space)),
           Opt (One (Chr (CHR 0x60))),
           Grp (Seq (One (Range CHR ''a'' CHR ''z''))
                    (Star (AnyOf [Range CHR ''a'' CHR ''z'', Range CHR ''0'' CHR ''9'', Chr CHR ''_'']))),
           Opt (One (Chr (CHR 0x60))),
           Plus Space,
           Opt (Alt (Lit ''Register'') (Lit ''CSR'')),
           Star Space, Eol])"

text \<open>
  The inline CSR pattern, with the flags \<open>gi\<close>: \<open>(?:^|\.\s+)(?:The\s+)?\<close>, a backquote,
  \<open>([a-z][a-z0-9_]*)\<close>, a backquote,
  \<open>\s+(?:CSR|register)\s+(?:is|contains?|holds?|provides?|controls?)([^.]+\.)\<close>.
\<close>

definition csrProseRe :: regexp where
  "csrProseRe = (True, False,
     seqs [Alt Bol (Seq (Lit ''.'') (Plus Space)),
           Opt (Seq (Lit ''The'') (Plus Space)),
           Lit [CHR 0x60],
           Grp (Seq (One (Range CHR ''a'' CHR ''z''))
                    (Star (AnyOf [Range CHR ''a'' CHR ''z'', Range CHR ''0'' CHR ''9'', Chr CHR ''_'']))),
           Lit [CHR 0x60],
           Plus Space,
           Alt (Lit ''CSR'') (Lit ''register''),
           Plus Space,
           alts [Lit ''is'', optS ''contain'', optS ''hold'', optS ''provide'', optS ''control''],
           Grp (Seq (Plus (NoneOf [Chr CHR ''.''])) (Lit ''.''))])"

text \<open>A match of \<open>matchAll\<close>: its index, its text (\<open>match[0]\<close>) and its groups.\<close>

type_synonym rmatch = "nat \<times> string \<times> string list"

text \<open>Pattern 1: the body of the loop over the normative anchors.\<close>

definition normStep :: "descmap \<Rightarrow> rmatch \<Rightarrow> descmap" where
  "normStep instrDescriptions mt = (case mt of (idx, txt, g) \<Rightarrow>
     (let instrName = toLowerCase (grp g 1);
          desc = cleanAdocText (grp g 2)
      in if length desc > 10
         then (case instrDescriptions instrName of
                 None \<Rightarrow> instrDescriptions(instrName \<mapsto> desc)
               | Some existing \<Rightarrow>
                   if truthy existing then instrDescriptions(instrName \<mapsto> existing @ '' '' @ desc)
                   else instrDescriptions(instrName \<mapsto> desc))
         else instrDescriptions))"

text \<open>
  The section after a heading: up to the next heading of the same or a higher level, or
  \<open>cap\<close> characters when there is none.
\<close>

definition sectionOf :: "string \<Rightarrow> nat \<Rightarrow> nat \<Rightarrow> nat \<Rightarrow> string" where
  "sectionOf content startIdx headingLevel cap =
     (case rx_search (nextHeadingRegex headingLevel) (drop startIdx content) of
        None \<Rightarrow> slice content startIdx (startIdx + cap)
      | Some nextHeadingMatch \<Rightarrow> slice content startIdx (startIdx + nextHeadingMatch))"

text \<open>The cleaned normative statements of a section.\<close>

definition sectionNormTexts :: "string \<Rightarrow> string list" where
  "sectionNormTexts section =
     map (\<lambda>norm. case norm of (idx, txt, g) \<Rightarrow> cleanAdocText (grp g 1))
       (rx_matchAll normSpanRe 0 None section)"

text \<open>
  The loop over the paragraphs: the cleaned text of the first paragraph that is long
  enough and looks like neither a table nor a block, at which the loop breaks.
\<close>

fun firstParagraph :: "string list \<Rightarrow> string option" where
  "firstParagraph [] = None"
| "firstParagraph (para # rest) =
     (if length (cleanAdocText para) > 30 \<and> \<not> includes_char (cleanAdocText para) CHR ''|''
         \<and> \<not> startsWith (trim para) ''[''
      then Some (cleanAdocText para)
      else firstParagraph rest)"

text \<open>Pattern 2: the body of the loop over the instruction headings.\<close>

definition instrSectionStep :: "string \<Rightarrow> descmap \<Rightarrow> rmatch \<Rightarrow> descmap" where
  "instrSectionStep content instrDescriptions mt = (case mt of (idx, txt, g) \<Rightarrow>
     (let instrName = toLowerCase (grp g 2);
          headingLevel = length (grp g 1);
          startIdx = idx + length txt;
          section = sectionOf content startIdx headingLevel 2000;
          normTexts = sectionNormTexts section
      in if length normTexts > 0
         then (let combined = join '' '' normTexts
               in case instrDescriptions instrName of
                    None \<Rightarrow> instrDescriptions(instrName \<mapsto> combined)
                  | Some old \<Rightarrow>
                      if length old < length combined
                      then instrDescriptions(instrName \<mapsto> combined)
                      else instrDescriptions)
         else (case firstParagraph (str_split [CHR 0x0A, CHR 0x0A] [] section) of
                 None \<Rightarrow> instrDescriptions
               | Some cleaned \<Rightarrow>
                   if instrDescriptions instrName = None
                   then instrDescriptions(instrName \<mapsto> slice cleaned 0 500)
                   else instrDescriptions)))"

text \<open>Pattern 3: the body of the loop over the prose matches.\<close>

definition proseStep :: "descmap \<Rightarrow> rmatch \<Rightarrow> descmap" where
  "proseStep instrDescriptions mt = (case mt of (idx, txt, g) \<Rightarrow>
     (let instrName = toLowerCase (grp g 1);
          fullDesc = trim (grp g 1 @ '' '' @ grp g 2);
          cleaned = cleanAdocText fullDesc
      in if length cleaned > 20 \<and> instrDescriptions instrName = None
         then instrDescriptions(instrName \<mapsto> cleaned)
         else instrDescriptions))"

text \<open>Pattern 4: the body of the loop over the CSR headings.\<close>

definition csrSectionStep :: "string \<Rightarrow> descmap \<Rightarrow> rmatch \<Rightarrow> descmap" where
  "csrSectionStep content csrDescriptions mt = (case mt of (idx, txt, g) \<Rightarrow>
     (let csrName = toLowerCase (grp g 2);
          headingLevel = length (grp g 1);
          startIdx = idx + length txt;
          section = sectionOf content startIdx headingLevel 1500;
          normTexts = sectionNormTexts section
      in if length normTexts > 0
         then csrDescriptions(csrName \<mapsto> join '' '' normTexts)
         else (case firstParagraph (str_split [CHR 0x0A, CHR 0x0A] [] section) of
                 None \<Rightarrow> csrDescriptions
               | Some cleaned \<Rightarrow> csrDescriptions(csrName \<mapsto> slice cleaned 0 500))))"

text \<open>Pattern 5: the body of the loop over the inline CSR matches.\<close>

definition csrProseStep :: "descmap \<Rightarrow> rmatch \<Rightarrow> descmap" where
  "csrProseStep csrDescriptions mt = (case mt of (idx, txt, g) \<Rightarrow>
     (let csrName = toLowerCase (grp g 1);
          fullDesc = trim (''The '' @ csrName @ '' register '' @ grp g 2);
          cleaned = cleanAdocText fullDesc
      in if length cleaned > 20 \<and> csrDescriptions csrName = None
         then csrDescriptions(csrName \<mapsto> cleaned)
         else csrDescriptions))"

text \<open>The five patterns over one file, in order, on the two maps.\<close>

definition scanNorms :: "string \<Rightarrow> descmap \<Rightarrow> descmap" where
  "scanNorms content m = foldl normStep m (rx_matchAll normRe 0 None content)"

definition scanInstrSections :: "string \<Rightarrow> descmap \<Rightarrow> descmap" where
  "scanInstrSections content m =
     foldl (instrSectionStep content) m (rx_matchAll sectionRe 0 None content)"

definition scanProse :: "string \<Rightarrow> descmap \<Rightarrow> descmap" where
  "scanProse content m = foldl proseStep m (rx_matchAll proseRe 0 None content)"

definition scanCsrSections :: "string \<Rightarrow> descmap \<Rightarrow> descmap" where
  "scanCsrSections content m =
     foldl (csrSectionStep content) m (rx_matchAll csrSectionRe 0 None content)"

definition scanCsrProse :: "string \<Rightarrow> descmap \<Rightarrow> descmap" where
  "scanCsrProse content m = foldl csrProseStep m (rx_matchAll csrProseRe 0 None content)"

definition extractFromFile :: "descmap \<times> descmap \<Rightarrow> string \<Rightarrow> descmap \<times> descmap" where
  "extractFromFile maps content = (case maps of (instrDescriptions, csrDescriptions) \<Rightarrow>
     (scanProse content (scanInstrSections content (scanNorms content instrDescriptions)),
      scanCsrProse content (scanCsrSections content csrDescriptions)))"

text \<open>
  \<open>extractDescriptionsFromAdoc\<close> over the contents of the files that could be read, in
  the order of the directory walk.
\<close>

definition extractDescriptionsFromAdoc :: "string list \<Rightarrow> descmap \<times> descmap" where
  "extractDescriptionsFromAdoc contents = foldl extractFromFile (Map.empty, Map.empty) contents"

section \<open>Names for the parts of a match\<close>

text \<open>The name and the cleaned text of a match of pattern 1.\<close>

definition normName :: "rmatch \<Rightarrow> string" where
  "normName mt = toLowerCase (grp (snd (snd mt)) 1)"

definition normDesc :: "rmatch \<Rightarrow> string" where
  "normDesc mt = cleanAdocText (grp (snd (snd mt)) 2)"




text \<open>The section of a matched heading, for the instruction scan and for the CSR scan.\<close>

definition headingName :: "rmatch \<Rightarrow> string" where
  "headingName mt = toLowerCase (grp (snd (snd mt)) 2)"

definition headingSection :: "string \<Rightarrow> nat \<Rightarrow> rmatch \<Rightarrow> string" where
  "headingSection content cap mt =
     sectionOf content (fst mt + length (fst (snd mt))) (length (grp (snd (snd mt)) 1)) cap"

section \<open>White-space normalisation, for the proofs\<close>

text \<open>Collapsing runs of white space, as a scan with one bit of state.\<close>

fun collapseAux :: "bool \<Rightarrow> string \<Rightarrow> string" where
  "collapseAux b [] = []"
| "collapseAux b (c # cs) =
     (if isWhiteSpace c then (if b then collapseAux True cs else CHR '' '' # collapseAux True cs)
      else c # collapseAux False cs)"

text \<open>Two adjacent white-space characters somewhere in a string.\<close>

definition adjacent_ws :: "string \<Rightarrow> bool" where
  "adjacent_ws s = (\<exists>xs a b ys. s = xs @ a # b # ys \<and> isWhiteSpace a \<and> isWhiteSpace b)"

text \<open>
  The characters one of which every markup pattern of \<open>cleanAdocText\<close> needs, the pattern
  of the attribute lines apart: bracket, angle, star, underscore, backquote.
\<close>

definition markupChars :: "char set" where
  "markupChars = {CHR ''['', CHR ''<'', CHR ''*'', CHR ''_'', CHR 0x60}"

section \<open>Numeric literals, for the statements about tokens\<close>

text \<open>
  The value of a string of digits in a radix, by position:
  the digit at index \<open>i\<close> counts \<open>R ^ (length - 1 - i)\<close>.
\<close>

definition positional :: "nat \<Rightarrow> string \<Rightarrow> nat" where
  "positional R ds =
     (\<Sum>i<length ds. (case digitVal (ds ! i) of None \<Rightarrow> 0 | Some d \<Rightarrow> d) * R ^ (length ds - Suc i))"

text \<open>A decimal literal: one or more of 0-9.  Hexadecimal digits: one or more of 0-9, a-f, A-F.\<close>

definition isDecLiteral :: "string \<Rightarrow> bool" where
  "isDecLiteral s = (s \<noteq> [] \<and> list_all isDigit s)"

definition isHexDigits :: "string \<Rightarrow> bool" where
  "isHexDigits s = (s \<noteq> [] \<and> list_all (isRadixDigit 16) s)"

text \<open>The first way to match at a position, if any.\<close>

definition rx1 :: "bool \<Rightarrow> bool \<Rightarrow> rx \<Rightarrow> mstate \<Rightarrow> mstate option" where
  "rx1 ic ml e st = (case rxm ic ml e st of [] \<Rightarrow> None | x # _ \<Rightarrow> Some x)"

section \<open>Splitting at white space, for the proofs\<close>

text \<open>
  The pieces between runs of white space, as a scan with one bit of state: \<open>b\<close> holds
  inside a run, \<open>cur\<close> is the piece being read.
\<close>

fun wsplit :: "bool \<Rightarrow> string \<Rightarrow> string \<Rightarrow> string list" where
  "wsplit b cur [] = [cur]"
| "wsplit b cur (c # cs) =
     (if isWhiteSpace c then (if b then wsplit True cur cs else cur # wsplit True [] cs)
      else wsplit False (cur @ [c]) cs)"

section \<open>Deduplication\<close>

lemma seen_set_absent: "\<not> seen_has seen k \<Longrightarrow> seen_set seen k v = seen @ [(k, v)]"
  by (induction seen) (auto simp: seen_has_def)

lemma dedupLoop_ok: "seen_ok seen \<Longrightarrow> seen_ok (dedupLoop seen xs)"
proof (induction xs arbitrary: seen)
  case Nil
  then show ?case by simp
next
  case (Cons x xs)
  show ?case
  proof (cases "seen_has seen (name x)")
    case True
    with Cons show ?thesis by simp
  next
    case False
    then have "seen_ok (seen @ [(name x, x)])"
      using Cons.prems by (auto simp: seen_ok_def seen_has_def)
    with Cons.IH False show ?thesis by (simp add: seen_set_absent)
  qed
qed

lemma find_append: "find P (xs @ ys) = (case find P xs of None \<Rightarrow> find P ys | Some x \<Rightarrow> Some x)"
  by (induction xs) auto

lemma find_seen_has:
  assumes "seen_ok seen" "seen_has seen n"
  shows "\<exists>i. find (\<lambda>i. name i = n) (map snd seen) = Some i"
proof -
  from assms have "n \<in> set (map (name \<circ> snd) seen)"
    by (simp add: seen_ok_def seen_has_def)
  then obtain i where "i \<in> set (map snd seen)" "name i = n" by auto
  then have "find (\<lambda>i. name i = n) (map snd seen) \<noteq> None"
    by (auto simp: find_None_iff)
  then show ?thesis by auto
qed

lemma dedupLoop_find:
  "seen_ok seen \<Longrightarrow>
   find (\<lambda>i. name i = n) (map snd (dedupLoop seen xs)) = find (\<lambda>i. name i = n) (map snd seen @ xs)"
proof (induction xs arbitrary: seen)
  case Nil
  then show ?case by simp
next
  case (Cons x xs)
  show ?case
  proof (cases "seen_has seen (name x)")
    case True
    then have "find (\<lambda>i. name i = n) (map snd (dedupLoop seen (x # xs)))
        = find (\<lambda>i. name i = n) (map snd seen @ xs)"
      using Cons by simp
    also have "\<dots> = find (\<lambda>i. name i = n) (map snd seen @ x # xs)"
    proof (cases "name x = n")
      case True
      with \<open>seen_has seen (name x)\<close> Cons.prems obtain i
        where "find (\<lambda>i. name i = n) (map snd seen) = Some i"
        using find_seen_has by blast
      then show ?thesis by (simp add: find_append)
    next
      case False
      then show ?thesis by (simp add: find_append split: option.splits)
    qed
    finally show ?thesis .
  next
    case False
    then have ok: "seen_ok (seen @ [(name x, x)])"
      using Cons.prems by (auto simp: seen_ok_def seen_has_def)
    from False have "dedupLoop seen (x # xs) = dedupLoop (seen @ [(name x, x)]) xs"
      by (simp add: seen_set_absent)
    with Cons.IH [OF ok] show ?thesis by simp
  qed
qed

lemma filter_distinct_find:
  "distinct (map f ys) \<Longrightarrow>
   filter (\<lambda>i. f i = n) ys = (case find (\<lambda>i. f i = n) ys of None \<Rightarrow> [] | Some i \<Rightarrow> [i])"
proof (induction ys)
  case Nil
  then show ?case by simp
next
  case (Cons y ys)
  show ?case
  proof (cases "f y = n")
    case True
    with Cons.prems have "n \<notin> f ` set ys" by simp
    then have "\<forall>i \<in> set ys. f i \<noteq> n" by (simp add: image_iff) metis
    then have "filter (\<lambda>i. f i = n) ys = []" by (simp add: filter_empty_conv)
    with True show ?thesis by simp
  next
    case False
    with Cons show ?thesis by simp
  qed
qed

lemma finalInstructions_distinct: "distinct (map name (finalInstructions xs))"
proof -
  have "seen_ok (dedupLoop [] xs)" by (rule dedupLoop_ok) (simp add: seen_ok_def)
  then have "distinct (map (name \<circ> snd) (dedupLoop [] xs))"
    unfolding seen_ok_def by metis
  then show ?thesis by (simp add: finalInstructions_def)
qed

lemma finalInstructions_find:
  "find (\<lambda>i. name i = n) (finalInstructions xs) = find (\<lambda>i. name i = n) xs"
  using dedupLoop_find [of "[]" n xs] by (simp add: finalInstructions_def seen_ok_def)

lemma name_attachInstr: "name (attachInstr m i) = name i"
  by (simp add: attachInstr_def split: option.splits)

lemma find_map_attach:
  "find (\<lambda>i. name i = n) (map (attachInstr m) xs) = map_option (attachInstr m) (find (\<lambda>i. name i = n) xs)"
  by (induction xs) (auto simp: name_attachInstr)

text \<open>
  Claim C8.  Whatever list of parsed instructions \<open>main\<close> assembles, the names in the
  dataset's \<open>instructions\<close> array are pairwise distinct, and for every name the
  array holds exactly the first record of the input with that name (with its description
  attached), and nothing when no input record has the name.
\<close>

theorem dedup_first_occurrence_wins:
  "distinct (map name (instructions (assemble instrs cs idescs cdescs))) \<and>
   filter (\<lambda>i. name i = n) (instructions (assemble instrs cs idescs cdescs)) =
     (case find (\<lambda>i. name i = n) instrs of None \<Rightarrow> [] | Some i \<Rightarrow> [attachInstr idescs i])"
proof -
  let ?xs = "map (attachInstr idescs) instrs"
  have d: "distinct (map name (finalInstructions ?xs))" by (rule finalInstructions_distinct)
  have "filter (\<lambda>i. name i = n) (finalInstructions ?xs) =
      (case find (\<lambda>i. name i = n) (finalInstructions ?xs) of None \<Rightarrow> [] | Some i \<Rightarrow> [i])"
    using d by (rule filter_distinct_find)
  also have "\<dots> = (case find (\<lambda>i. name i = n) instrs of None \<Rightarrow> [] | Some i \<Rightarrow> [attachInstr idescs i])"
    by (simp add: finalInstructions_find find_map_attach split: option.splits)
  finally show ?thesis using d by (simp add: assemble_def)
qed

theorem dedup_first_occurrence_wins_witness:
  "filter (\<lambda>i. name i = ''add'')
     (instructions (assemble
        [\<lparr>name = ''add'', extension = ''rv_i'', operands = [], encoding = [], description = [], type = instruction\<rparr>,
         \<lparr>name = ''sub'', extension = ''rv_i'', operands = [], encoding = [], description = [], type = instruction\<rparr>,
         \<lparr>name = ''add'', extension = ''unratified/rv_x'', operands = [], encoding = [], description = [], type = instruction\<rparr>]
        [] Map.empty Map.empty))
   = [\<lparr>name = ''add'', extension = ''rv_i'', operands = [], encoding = [], description = [], type = instruction\<rparr>]"
  using dedup_first_occurrence_wins [of
        "[\<lparr>name = ''add'', extension = ''rv_i'', operands = [], encoding = [], description = [], type = instruction\<rparr>,
         \<lparr>name = ''sub'', extension = ''rv_i'', operands = [], encoding = [], description = [], type = instruction\<rparr>,
         \<lparr>name = ''add'', extension = ''unratified/rv_x'', operands = [], encoding = [], description = [], type = instruction\<rparr>]"
        "[]" Map.empty Map.empty "''add''"]
  by (simp add: attachInstr_def)

section \<open>Encoding-line grammar: scenario A\<close>

lemma encodingLoop_operands_only:
  "snd (encodingLoop (ops, enc) parts) =
   snd (encodingLoop (ops', enc) (filter (\<lambda>p. p \<notin> set KNOWN_OPERANDS) parts))"
proof (induction parts arbitrary: ops ops' enc)
  case Nil
  then show ?case by simp
next
  case (Cons part rest)
  show ?case
  proof (cases "part \<in> set KNOWN_OPERANDS")
    case True
    then show ?thesis using Cons [of "ops @ [part]" enc ops'] by simp
  next
    case False
    then show ?thesis
      using Cons by (simp split: option.splits)
  qed
qed

lemma encodingLoop_operands:
  "fst (encodingLoop (ops, enc) parts) = ops @ filter (\<lambda>p. p \<in> set KNOWN_OPERANDS) parts"
proof (induction parts arbitrary: ops enc)
  case Nil
  then show ?case by simp
next
  case (Cons part rest)
  show ?case
  proof (cases "part \<in> set KNOWN_OPERANDS")
    case True
    then show ?thesis using Cons [of "ops @ [part]" enc] by simp
  next
    case False
    then show ?thesis
      using Cons by (simp split: option.splits)
  qed
qed

text \<open>
  Claim C1, as the code has it.  The line of scenario A, under the mnemonic \<open>add\<close>, yields
  exactly one instruction; its operand list is empty, because no token of the line is a
  bare operand name, and its encoding has six bit-fields in token order: three with the
  fixed values 0, 0 and 0x33, and three, from \<open>24..20=rs2\<close>, \<open>19..15=rs1\<close> and
  \<open>11..7=rd\<close>, whose value is \<open>NaN\<close>.  In every line the encoding depends on the
  tokens that are not operand names only: an operand token never produces a bit-field.
  In every line the operands are the tokens that are operand names, in order: each is
  pushed to the operand list, and nothing else is.
  The line in the format of the opcode files, with bare operands, gives the three operands
  and four fixed-value fields.
\<close>

theorem scenario_A_amended:
  "parseOpcodeFile ''add 31..25=0 24..20=rs2 19..15=rs1 14..12=0 11..7=rd 6..0=0x33'' ext =
     [\<lparr>name = ''add'', extension = ext, operands = [],
       encoding =
        [\<lparr>high = Num 31, low = Num 25, bvalue = Num 0\<rparr>,
         \<lparr>high = Num 24, low = Num 20, bvalue = NaN\<rparr>,
         \<lparr>high = Num 19, low = Num 15, bvalue = NaN\<rparr>,
         \<lparr>high = Num 14, low = Num 12, bvalue = Num 0\<rparr>,
         \<lparr>high = Num 11, low = Num 7, bvalue = NaN\<rparr>,
         \<lparr>high = Num 6, low = Num 0, bvalue = Num 51\<rparr>],
       description = [], type = instruction\<rparr>]
   \<and> snd (encodingLoop (ops, enc) parts) =
       snd (encodingLoop (ops', enc) (filter (\<lambda>p. p \<notin> set KNOWN_OPERANDS) parts))
   \<and> fst (encodingLoop (ops, enc) parts) = ops @ filter (\<lambda>p. p \<in> set KNOWN_OPERANDS) parts
   \<and> parseOpcodeFile ''add rd rs1 rs2 31..25=0 14..12=0 6..2=0x0C 1..0=3'' ext =
     [\<lparr>name = ''add'', extension = ext, operands = [''rd'', ''rs1'', ''rs2''],
       encoding =
        [\<lparr>high = Num 31, low = Num 25, bvalue = Num 0\<rparr>,
         \<lparr>high = Num 14, low = Num 12, bvalue = Num 0\<rparr>,
         \<lparr>high = Num 6, low = Num 2, bvalue = Num 12\<rparr>,
         \<lparr>high = Num 1, low = Num 0, bvalue = Num 3\<rparr>],
       description = [], type = instruction\<rparr>]"
proof (intro conjI)
  show "snd (encodingLoop (ops, enc) parts) =
       snd (encodingLoop (ops', enc) (filter (\<lambda>p. p \<notin> set KNOWN_OPERANDS) parts))"
    by (rule encodingLoop_operands_only)
  show "fst (encodingLoop (ops, enc) parts) = ops @ filter (\<lambda>p. p \<in> set KNOWN_OPERANDS) parts"
    by (rule encodingLoop_operands)
qed code_simp+

theorem scenario_A_amended_witness:
  "snd (encodingLoop ([], []) [''rd'', ''14..12=0'', ''rs1'']) =
   snd (encodingLoop ([''x''], []) [''14..12=0''])
   \<and> fst (encodingLoop ([], []) [''rd'', ''14..12=0'', ''rs1'']) = [''rd'', ''rs1'']"
proof -
  have "filter (\<lambda>p. p \<notin> set KNOWN_OPERANDS) [''rd'', ''14..12=0'', ''rs1''] = [''14..12=0'']"
    by code_simp
  moreover have "filter (\<lambda>p. p \<in> set KNOWN_OPERANDS) [''rd'', ''14..12=0'', ''rs1''] = [''rd'', ''rs1'']"
    by code_simp
  ultimately show ?thesis
    using scenario_A_amended [of "''rv_i''" "[]" "[]" "[''rd'', ''14..12=0'', ''rs1'']" "[''x'']"]
    by simp
qed

text \<open>
  Claim C1 as stated fails on the code: the operand list is not \<open>rs2, rs1, rd\<close>, the
  encoding does not have four fields, and not four of them have a fixed value.
\<close>

theorem scenario_A_counterexample:
  "map operands (parseOpcodeFile ''add 31..25=0 24..20=rs2 19..15=rs1 14..12=0 11..7=rd 6..0=0x33'' ''rv_i'')
     \<noteq> [[''rs2'', ''rs1'', ''rd'']]
   \<and> map (length \<circ> encoding) (parseOpcodeFile ''add 31..25=0 24..20=rs2 19..15=rs1 14..12=0 11..7=rd 6..0=0x33'' ''rv_i'')
     \<noteq> [4]
   \<and> map (\<lambda>i. length (filter (\<lambda>b. bvalue b \<noteq> NaN) (encoding i)))
        (parseOpcodeFile ''add 31..25=0 24..20=rs2 19..15=rs1 14..12=0 11..7=rd 6..0=0x33'' ''rv_i'')
     \<noteq> [4]"
  by code_simp

section \<open>Opcode-file parser\<close>

lemma parseOpcodeLine_instruction:
  "i \<in> set (parseOpcodeLine line ext) \<Longrightarrow> type i = instruction \<Longrightarrow> encoding i \<noteq> []"
  by (auto simp: parseOpcodeLine_def split: if_splits option.splits prod.splits)

lemma parseOpcodeLine_no_fields:
  assumes "\<not> startsWith (trim line) ''$pseudo_op''"
    and "snd (parseEncodingLine (join '' '' (tl (rx_split wsRe None [] (trim line))))) = []"
  shows "parseOpcodeLine line ext = []"
  using assms by (auto simp: parseOpcodeLine_def split: prod.splits)

text \<open>
  Claim C3.  Every record of type \<open>instruction\<close> that \<open>parseOpcodeFile\<close> emits has at
  least one bit-field; and a line that is not a \<open>$pseudo_op\<close> directive and whose
  remainder parses to zero bit-fields emits no record at all.
\<close>

theorem zero_fields_no_instruction:
  "(\<forall>i \<in> set (parseOpcodeFile content ext). type i = instruction \<longrightarrow> encoding i \<noteq> []) \<and>
   (\<not> startsWith (trim line) ''$pseudo_op'' \<and>
    snd (parseEncodingLine (join '' '' (tl (rx_split wsRe None [] (trim line))))) = []
      \<longrightarrow> parseOpcodeLine line ext = [])"
  using parseOpcodeLine_no_fields [of line ext]
  by (auto simp: parseOpcodeFile_def dest: parseOpcodeLine_instruction)

theorem zero_fields_no_instruction_witness:
  "type (hd (parseOpcodeFile ''add rd rs1 rs2 31..25=0 14..12=0 6..2=0x0C 1..0=3'' ''rv_i'')) = instruction \<and>
   encoding (hd (parseOpcodeFile ''add rd rs1 rs2 31..25=0 14..12=0 6..2=0x0C 1..0=3'' ''rv_i'')) \<noteq> [] \<and>
   \<not> startsWith (trim ''frobnicate rd rs1 ignore'') ''$pseudo_op'' \<and>
   snd (parseEncodingLine (join '' '' (tl (rx_split wsRe None [] (trim ''frobnicate rd rs1 ignore''))))) = [] \<and>
   parseOpcodeLine ''frobnicate rd rs1 ignore'' ''rv_i'' = []"
proof -
  have f: "parseOpcodeFile ''add rd rs1 rs2 31..25=0 14..12=0 6..2=0x0C 1..0=3'' ''rv_i'' =
    [\<lparr>name = ''add'', extension = ''rv_i'', operands = [''rd'', ''rs1'', ''rs2''],
      encoding = [\<lparr>high = Num 31, low = Num 25, bvalue = Num 0\<rparr>,
                  \<lparr>high = Num 14, low = Num 12, bvalue = Num 0\<rparr>,
                  \<lparr>high = Num 6, low = Num 2, bvalue = Num 12\<rparr>,
                  \<lparr>high = Num 1, low = Num 0, bvalue = Num 3\<rparr>],
      description = [], type = instruction\<rparr>]"
    by code_simp
  have a: "\<not> startsWith (trim ''frobnicate rd rs1 ignore'') ''$pseudo_op''"
    by code_simp
  have b: "snd (parseEncodingLine (join '' '' (tl (rx_split wsRe None [] (trim ''frobnicate rd rs1 ignore''))))) = []"
    by code_simp
  show ?thesis
    using zero_fields_no_instruction [of "''add rd rs1 rs2 31..25=0 14..12=0 6..2=0x0C 1..0=3''" "''rv_i''"
        "''frobnicate rd rs1 ignore''"] a b
    by (simp add: f)
qed

lemma startsWith_pseudo:
  "startsWith t ''$pseudo_op'' \<Longrightarrow> t \<noteq> [] \<and> \<not> startsWith t ''#'' \<and> \<not> startsWith t ''@''"
  by (cases t) (auto simp: startsWith_def)

lemma parseOpcodeLine_pseudo:
  assumes "startsWith (trim line) ''$pseudo_op''"
    and "rx_match pseudoRe (trim line) = Some g"
  shows "parseOpcodeLine line ext =
     [\<lparr>name = grp g 1, extension = ext,
       operands = fst (parseEncodingLine (grp g 2)),
       encoding = snd (parseEncodingLine (grp g 2)),
       description = [], type = pseudo\<rparr>]"
  using assms startsWith_pseudo [of "trim line"]
  by (simp add: parseOpcodeLine_def split: prod.splits)

lemma lines_append:
  "str_split [CHR 0x0A] cur (a @ CHR 0x0A # b) = str_split [CHR 0x0A] cur a @ str_split [CHR 0x0A] [] b"
  by (induction a arbitrary: cur) (simp_all add: startsWith_def)

lemma lines_single:
  "CHR 0x0A \<notin> set s \<Longrightarrow> str_split [CHR 0x0A] cur s = [cur @ s]"
  by (induction s arbitrary: cur) (auto simp: startsWith_def)

lemma parseOpcodeLine_empty: "parseOpcodeLine [] ext = []"
  by (simp add: parseOpcodeLine_def trim_def)

lemma parseOpcodeFile_newline:
  "parseOpcodeFile (a @ CHR 0x0A # b) ext = parseOpcodeFile a ext @ parseOpcodeFile b ext"
  by (simp add: parseOpcodeFile_def lines_append)

lemma parseOpcodeFile_one_line:
  "CHR 0x0A \<notin> set line \<Longrightarrow> parseOpcodeFile line ext = parseOpcodeLine line ext"
  by (simp add: parseOpcodeFile_def lines_single)

lemma parseOpcodeFile_line:
  assumes "before = [] \<or> last before = CHR 0x0A" "after = [] \<or> hd after = CHR 0x0A"
    and "CHR 0x0A \<notin> set line"
  shows "parseOpcodeFile (before @ line @ after) ext =
     parseOpcodeFile before ext @ parseOpcodeLine line ext @ parseOpcodeFile after ext"
proof -
  have e: "parseOpcodeFile [] ext = []"
    by (simp add: parseOpcodeFile_def parseOpcodeLine_empty)
  have r: "parseOpcodeFile (line @ after) ext = parseOpcodeLine line ext @ parseOpcodeFile after ext"
  proof (cases after)
    case Nil
    then show ?thesis using assms(3) by (simp add: parseOpcodeFile_one_line e)
  next
    case (Cons c cs)
    with assms(2) have c: "c = CHR 0x0A" by simp
    have "parseOpcodeFile after ext = parseOpcodeFile [] ext @ parseOpcodeFile cs ext"
      unfolding Cons c using parseOpcodeFile_newline [of "[]" cs ext] by simp
    then show ?thesis
      unfolding Cons c
      using assms(3) by (simp add: parseOpcodeFile_newline parseOpcodeFile_one_line e)
  qed
  show ?thesis
  proof (cases "before = []")
    case True
    then show ?thesis using r by (simp add: e)
  next
    case False
    with assms(1) have "last before = CHR 0x0A" by simp
    with False have b: "before = butlast before @ [CHR 0x0A]"
      by (metis append_butlast_last_id)
    have "parseOpcodeFile before ext = parseOpcodeFile (butlast before) ext"
      using parseOpcodeFile_newline [of "butlast before" "[]" ext] b by (simp add: e)
    moreover have "parseOpcodeFile (before @ line @ after) ext =
        parseOpcodeFile (butlast before) ext @ parseOpcodeFile (line @ after) ext"
      using parseOpcodeFile_newline [of "butlast before" "line @ after" ext] b
      by (metis append_Cons append_Nil append_assoc)
    ultimately show ?thesis using r by simp
  qed
qed

text \<open>
  Claim C9.  Take a file in which a line stands between line feeds, or at an end of the
  file: \<open>before\<close> is the text before the line, empty or ending in a line feed, and
  \<open>after\<close> the text after it, empty or starting with a line feed.  When the line is a
  \<open>$pseudo_op\<close> directive that the directive pattern matches, \<open>parseOpcodeFile\<close> returns,
  between the records of \<open>before\<close> and the records of \<open>after\<close>, exactly one record for
  the line: it has the type \<open>pseudo\<close>, the name and the rest that the pattern captures,
  and the operands and the encoding of the rest, whatever the encoding list is.  No
  threshold on the bit-fields applies to a directive; the witness is a file whose
  directive has an empty encoding list, beside a regular line with no bit-field, which
  emits nothing.
\<close>

theorem pseudo_op_always_emitted:
  assumes "before = [] \<or> last before = CHR 0x0A" "after = [] \<or> hd after = CHR 0x0A"
    and "CHR 0x0A \<notin> set line"
    and "startsWith (trim line) ''$pseudo_op''"
    and "rx_match pseudoRe (trim line) = Some g"
  shows "parseOpcodeFile (before @ line @ after) ext =
     parseOpcodeFile before ext @
     [\<lparr>name = grp g 1, extension = ext,
       operands = fst (parseEncodingLine (grp g 2)),
       encoding = snd (parseEncodingLine (grp g 2)),
       description = [], type = pseudo\<rparr>] @
     parseOpcodeFile after ext"
  using parseOpcodeFile_line [OF assms(1-3), of ext] parseOpcodeLine_pseudo [OF assms(4,5), of ext]
  by simp

theorem pseudo_op_always_emitted_witness:
  "last ''add rd rs1 rs2 31..25=0 14..12=0 6..2=0x0C 1..0=3\<newline>'' = CHR 0x0A \<and>
   hd ''\<newline>frobnicate rd rs1 ignore\<newline>'' = CHR 0x0A \<and>
   CHR 0x0A \<notin> set ''$pseudo_op rv_i::jal j jimm20'' \<and>
   startsWith (trim ''$pseudo_op rv_i::jal j jimm20'') ''$pseudo_op'' \<and>
   rx_match pseudoRe (trim ''$pseudo_op rv_i::jal j jimm20'') = Some [''j'', ''jimm20''] \<and>
   parseOpcodeFile
     ''add rd rs1 rs2 31..25=0 14..12=0 6..2=0x0C 1..0=3\<newline>$pseudo_op rv_i::jal j jimm20\<newline>frobnicate rd rs1 ignore\<newline>''
     ''rv_i'' =
     [\<lparr>name = ''add'', extension = ''rv_i'', operands = [''rd'', ''rs1'', ''rs2''],
       encoding = [\<lparr>high = Num 31, low = Num 25, bvalue = Num 0\<rparr>,
                   \<lparr>high = Num 14, low = Num 12, bvalue = Num 0\<rparr>,
                   \<lparr>high = Num 6, low = Num 2, bvalue = Num 12\<rparr>,
                   \<lparr>high = Num 1, low = Num 0, bvalue = Num 3\<rparr>],
       description = [], type = instruction\<rparr>,
      \<lparr>name = ''j'', extension = ''rv_i'', operands = [''jimm20''], encoding = [],
       description = [], type = pseudo\<rparr>]"
proof -
  let ?before = "''add rd rs1 rs2 31..25=0 14..12=0 6..2=0x0C 1..0=3\<newline>''"
  let ?line = "''$pseudo_op rv_i::jal j jimm20''"
  let ?after = "''\<newline>frobnicate rd rs1 ignore\<newline>''"
  have l: "last ?before = CHR 0x0A" "hd ?after = CHR 0x0A" "CHR 0x0A \<notin> set ?line"
    by simp_all
  have c: "?before = [] \<or> last ?before = CHR 0x0A" "?after = [] \<or> hd ?after = CHR 0x0A"
    using l by blast+
  have a: "startsWith (trim ?line) ''$pseudo_op''"
    by code_simp
  have b: "rx_match pseudoRe (trim ?line) = Some [''j'', ''jimm20'']"
    by code_simp
  have p: "parseEncodingLine ''jimm20'' = ([''jimm20''], [])"
    by code_simp
  have f: "parseOpcodeFile ?before ''rv_i'' =
     [\<lparr>name = ''add'', extension = ''rv_i'', operands = [''rd'', ''rs1'', ''rs2''],
       encoding = [\<lparr>high = Num 31, low = Num 25, bvalue = Num 0\<rparr>,
                   \<lparr>high = Num 14, low = Num 12, bvalue = Num 0\<rparr>,
                   \<lparr>high = Num 6, low = Num 2, bvalue = Num 12\<rparr>,
                   \<lparr>high = Num 1, low = Num 0, bvalue = Num 3\<rparr>],
       description = [], type = instruction\<rparr>]"
    by code_simp
  have r: "parseOpcodeFile ?after ''rv_i'' = []"
    by code_simp
  have "parseOpcodeFile (?before @ ?line @ ?after) ''rv_i'' =
     parseOpcodeFile ?before ''rv_i'' @
     [\<lparr>name = grp [''j'', ''jimm20''] 1, extension = ''rv_i'',
       operands = fst (parseEncodingLine (grp [''j'', ''jimm20''] 2)),
       encoding = snd (parseEncodingLine (grp [''j'', ''jimm20''] 2)),
       description = [], type = pseudo\<rparr>] @
     parseOpcodeFile ?after ''rv_i''"
    using pseudo_op_always_emitted [OF c l(3) a b, of "''rv_i''"] .
  then have "parseOpcodeFile (?before @ ?line @ ?after) ''rv_i'' =
     [\<lparr>name = ''add'', extension = ''rv_i'', operands = [''rd'', ''rs1'', ''rs2''],
       encoding = [\<lparr>high = Num 31, low = Num 25, bvalue = Num 0\<rparr>,
                   \<lparr>high = Num 14, low = Num 12, bvalue = Num 0\<rparr>,
                   \<lparr>high = Num 6, low = Num 2, bvalue = Num 12\<rparr>,
                   \<lparr>high = Num 1, low = Num 0, bvalue = Num 3\<rparr>],
       description = [], type = instruction\<rparr>,
      \<lparr>name = ''j'', extension = ''rv_i'', operands = [''jimm20''], encoding = [],
       description = [], type = pseudo\<rparr>]"
    unfolding f r by (simp add: grp_def p)
  then show ?thesis using l a b by simp
qed

section \<open>Prose extraction: the normative-anchor scan\<close>

lemma normStep_short: "length (normDesc mt) \<le> 10 \<Longrightarrow> normStep m mt = m"
  by (cases mt) (simp add: normStep_def normDesc_def Let_def)

lemma normStep_long:
  "10 < length (normDesc mt) \<Longrightarrow>
   normStep m mt = m(normName mt \<mapsto>
     (case m (normName mt) of None \<Rightarrow> normDesc mt
      | Some e \<Rightarrow> if e = [] then normDesc mt else e @ '' '' @ normDesc mt))"
  by (cases mt) (auto simp: normStep_def normDesc_def normName_def Let_def truthy_def split: option.splits)

lemma foldl_normStep_filter:
  "foldl normStep m ms = foldl normStep m (filter (\<lambda>mt. 10 < length (normDesc mt)) ms)"
proof (induction ms arbitrary: m)
  case Nil
  then show ?case by simp
next
  case (Cons mt ms)
  show ?case
  proof (cases "10 < length (normDesc mt)")
    case True
    then show ?thesis using Cons by simp
  next
    case False
    then have "normStep m mt = m" by (simp add: normStep_short)
    with False Cons show ?thesis by simp
  qed
qed

text \<open>
  Claim C10.  The normative-anchor scan has the same result as the scan over the spans
  whose cleaned text is longer than 10 characters: a span of 10 characters or fewer leaves
  the map as it was, and a longer one leaves its cleaned text at the end of the entry of
  its name (stored or appended).
\<close>

theorem norm_span_threshold:
  "scanNorms content m =
     foldl normStep m (filter (\<lambda>mt. 10 < length (normDesc mt)) (rx_matchAll normRe 0 None content))
   \<and> (length (cleanAdocText (grp g 2)) \<le> 10 \<longrightarrow> normStep m' (i, t, g) = m')
   \<and> (10 < length (cleanAdocText (grp g 2)) \<longrightarrow>
        (\<exists>pre. normStep m' (i, t, g) (toLowerCase (grp g 1)) = Some (pre @ cleanAdocText (grp g 2))))"
proof (intro conjI impI)
  show "scanNorms content m =
     foldl normStep m (filter (\<lambda>mt. 10 < length (normDesc mt)) (rx_matchAll normRe 0 None content))"
    unfolding scanNorms_def by (rule foldl_normStep_filter)
next
  assume "length (cleanAdocText (grp g 2)) \<le> 10"
  then show "normStep m' (i, t, g) = m'"
    using normStep_short [of "(i, t, g)" m'] by (simp add: normDesc_def)
next
  assume l: "10 < length (cleanAdocText (grp g 2))"
  show "\<exists>pre. normStep m' (i, t, g) (toLowerCase (grp g 1)) = Some (pre @ cleanAdocText (grp g 2))"
  proof (cases "m' (toLowerCase (grp g 1))")
    case None
    with l have "normStep m' (i, t, g) (toLowerCase (grp g 1)) = Some ([] @ cleanAdocText (grp g 2))"
      using normStep_long [of "(i, t, g)" m'] by (simp add: normDesc_def normName_def)
    then show ?thesis by blast
  next
    case (Some e)
    with l have "normStep m' (i, t, g) (toLowerCase (grp g 1)) =
        Some ((if e = [] then [] else e @ '' '') @ cleanAdocText (grp g 2))"
      using normStep_long [of "(i, t, g)" m'] by (simp add: normDesc_def normName_def)
    then show ?thesis by blast
  qed
qed

lemma short_doc_matches:
  "rx_matchAll normRe 0 None ''[#norm:add_op]#Adds.#'' =
     [(0, ''[#norm:add_op]#Adds.#'', [''add'', ''Adds.''])]"
  by code_simp

lemma short_doc_clean: "cleanAdocText ''Adds.'' = ''Adds.''"
  by code_simp

lemma long_doc_clean: "cleanAdocText ''ADD performs integer addition.'' = ''ADD performs integer addition.''"
  by code_simp

theorem norm_span_threshold_witness:
  "scanNorms ''[#norm:add_op]#Adds.#'' (Map.empty(''sub'' \<mapsto> ''SUB subtracts.'')) =
     Map.empty(''sub'' \<mapsto> ''SUB subtracts.'')
   \<and> length (cleanAdocText (grp [''add'', ''Adds.''] 2)) \<le> 10
   \<and> 10 < length (cleanAdocText (grp [''ADD'', ''ADD performs integer addition.''] 2))
   \<and> (\<exists>pre. normStep Map.empty (0, [], [''ADD'', ''ADD performs integer addition.'']) (toLowerCase (grp [''ADD'', ''ADD performs integer addition.''] 1))
          = Some (pre @ ''ADD performs integer addition.''))"
proof -
  have a: "scanNorms ''[#norm:add_op]#Adds.#'' (Map.empty(''sub'' \<mapsto> ''SUB subtracts.'')) =
     Map.empty(''sub'' \<mapsto> ''SUB subtracts.'')
   \<and> length (cleanAdocText (grp [''add'', ''Adds.''] 2)) \<le> 10"
    using norm_span_threshold [of "''[#norm:add_op]#Adds.#''" "Map.empty(''sub'' \<mapsto> ''SUB subtracts.'')"
      "[''add'', ''Adds.'']" Map.empty 0 "[]"]
    by (simp add: short_doc_matches normDesc_def grp_def short_doc_clean)
  have l: "10 < length (cleanAdocText (grp [''ADD'', ''ADD performs integer addition.''] 2))"
    by (simp add: grp_def long_doc_clean)
  have "\<exists>pre. normStep Map.empty (0, [], [''ADD'', ''ADD performs integer addition.''])
          (toLowerCase (grp [''ADD'', ''ADD performs integer addition.''] 1))
          = Some (pre @ cleanAdocText (grp [''ADD'', ''ADD performs integer addition.''] 2))"
    using norm_span_threshold [of "[]" Map.empty "[''ADD'', ''ADD performs integer addition.'']" Map.empty 0 "[]"] l
    by blast
  then have "\<exists>pre. normStep Map.empty (0, [], [''ADD'', ''ADD performs integer addition.''])
          (toLowerCase (grp [''ADD'', ''ADD performs integer addition.''] 1))
          = Some (pre @ ''ADD performs integer addition.'')"
    by (simp add: grp_def long_doc_clean)
  with a l show ?thesis by blast
qed

section \<open>Prose extraction: the CSR section-heading scan\<close>

text \<open>
  Claim C5, as the code has it.  For a matched register heading, a section with normative
  spans sets the entry of the register to their concatenation, whatever the map held; a
  section without sets it to the first 500 characters of the first qualifying paragraph,
  also whatever the map held; and with no qualifying paragraph the map is unchanged.
\<close>

theorem csr_section_overwrites:
  "(sectionNormTexts (headingSection content 1500 mt) \<noteq> [] \<longrightarrow>
      csrSectionStep content m mt =
        m(headingName mt \<mapsto> join '' '' (sectionNormTexts (headingSection content 1500 mt))))
   \<and> (sectionNormTexts (headingSection content 1500 mt) = [] \<and>
       firstParagraph (str_split [CHR 0x0A, CHR 0x0A] [] (headingSection content 1500 mt)) = Some cleaned \<longrightarrow>
      csrSectionStep content m mt = m(headingName mt \<mapsto> slice cleaned 0 500))
   \<and> (sectionNormTexts (headingSection content 1500 mt) = [] \<and>
       firstParagraph (str_split [CHR 0x0A, CHR 0x0A] [] (headingSection content 1500 mt)) = None \<longrightarrow>
      csrSectionStep content m mt = m)"
  by (cases mt) (simp add: csrSectionStep_def headingSection_def headingName_def Let_def)

lemma csr_doc_match:
  "rx_matchAll csrSectionRe 0 None ''== mtvec\<newline>\<newline>The trap vector base address is held in this register.\<newline>'' =
     [(0, ''== mtvec\<newline>'', [''=='', ''mtvec''])]"
  by code_simp

lemma csr_doc_section:
  "headingSection ''== mtvec\<newline>\<newline>The trap vector base address is held in this register.\<newline>'' 1500
      (0, ''== mtvec\<newline>'', [''=='', ''mtvec'']) =
   ''\<newline>The trap vector base address is held in this register.\<newline>''"
  by code_simp

lemma csr_doc_norms:
  "sectionNormTexts ''\<newline>The trap vector base address is held in this register.\<newline>'' = []"
  by code_simp

lemma csr_doc_para:
  "firstParagraph (str_split [CHR 0x0A, CHR 0x0A] [] ''\<newline>The trap vector base address is held in this register.\<newline>'')
     = Some ''The trap vector base address is held in this register.''"
  by code_simp

lemma csr_norm_doc:
  "headingSection ''== mtvec Register\<newline>[#norm:mtvec_desc]#The mtvec register holds the trap vector configuration.#\<newline>'' 1500
      (0, ''== mtvec Register'', [''=='', ''mtvec'']) =
   ''\<newline>[#norm:mtvec_desc]#The mtvec register holds the trap vector configuration.#\<newline>''"
  "sectionNormTexts ''\<newline>[#norm:mtvec_desc]#The mtvec register holds the trap vector configuration.#\<newline>''
     = [''The mtvec register holds the trap vector configuration.'']"
  by code_simp+

lemma csr_short_doc:
  "headingSection ''== mtvec\<newline>\<newline>Too short.\<newline>'' 1500 (0, ''== mtvec\<newline>'', [''=='', ''mtvec''])
     = ''\<newline>Too short.\<newline>''"
  "sectionNormTexts ''\<newline>Too short.\<newline>'' = []"
  "firstParagraph (str_split [CHR 0x0A, CHR 0x0A] [] ''\<newline>Too short.\<newline>'') = None"
  by code_simp+

theorem csr_section_overwrites_witness:
  "csrSectionStep ''== mtvec\<newline>\<newline>The trap vector base address is held in this register.\<newline>''
      (Map.empty(''mtvec'' \<mapsto> ''Earlier text for mtvec, from a normative span.''))
      (0, ''== mtvec\<newline>'', [''=='', ''mtvec''])
   = Map.empty(''mtvec'' \<mapsto> ''The trap vector base address is held in this register.'')
   \<and> csrSectionStep ''== mtvec Register\<newline>[#norm:mtvec_desc]#The mtvec register holds the trap vector configuration.#\<newline>''
      (Map.empty(''mtvec'' \<mapsto> ''Earlier text for mtvec.''))
      (0, ''== mtvec Register'', [''=='', ''mtvec''])
   = Map.empty(''mtvec'' \<mapsto> ''The mtvec register holds the trap vector configuration.'')
   \<and> csrSectionStep ''== mtvec\<newline>\<newline>Too short.\<newline>''
      (Map.empty(''mtvec'' \<mapsto> ''Earlier text for mtvec.''))
      (0, ''== mtvec\<newline>'', [''=='', ''mtvec''])
   = Map.empty(''mtvec'' \<mapsto> ''Earlier text for mtvec.'')"
proof -
  have n: "headingName (0, ''== mtvec\<newline>'', [''=='', ''mtvec'']) = ''mtvec''"
    "headingName (0, ''== mtvec Register'', [''=='', ''mtvec'']) = ''mtvec''"
    by code_simp+
  have s: "slice ''The trap vector base address is held in this register.'' 0 500
      = ''The trap vector base address is held in this register.''"
    by code_simp
  have j: "join '' '' [''The mtvec register holds the trap vector configuration.'']
      = ''The mtvec register holds the trap vector configuration.''"
    by simp
  have h1: "sectionNormTexts (headingSection ''== mtvec\<newline>\<newline>The trap vector base address is held in this register.\<newline>'' 1500
        (0, ''== mtvec\<newline>'', [''=='', ''mtvec''])) = [] \<and>
      firstParagraph (str_split [CHR 0x0A, CHR 0x0A] []
        (headingSection ''== mtvec\<newline>\<newline>The trap vector base address is held in this register.\<newline>'' 1500
          (0, ''== mtvec\<newline>'', [''=='', ''mtvec'']))) =
        Some ''The trap vector base address is held in this register.''"
    by (simp only: csr_doc_section csr_doc_norms csr_doc_para)
  have a1: "csrSectionStep ''== mtvec\<newline>\<newline>The trap vector base address is held in this register.\<newline>''
      (Map.empty(''mtvec'' \<mapsto> ''Earlier text for mtvec, from a normative span.''))
      (0, ''== mtvec\<newline>'', [''=='', ''mtvec''])
    = (Map.empty(''mtvec'' \<mapsto> ''Earlier text for mtvec, from a normative span.''))
        (headingName (0, ''== mtvec\<newline>'', [''=='', ''mtvec'']) \<mapsto>
          slice ''The trap vector base address is held in this register.'' 0 500)"
    using h1 csr_section_overwrites [where content = "''== mtvec\<newline>\<newline>The trap vector base address is held in this register.\<newline>''"
        and mt = "(0, ''== mtvec\<newline>'', [''=='', ''mtvec''])"
        and cleaned = "''The trap vector base address is held in this register.''"
        and m = "Map.empty(''mtvec'' \<mapsto> ''Earlier text for mtvec, from a normative span.'')"]
    by blast
  have h2: "sectionNormTexts (headingSection ''== mtvec Register\<newline>[#norm:mtvec_desc]#The mtvec register holds the trap vector configuration.#\<newline>'' 1500
      (0, ''== mtvec Register'', [''=='', ''mtvec''])) \<noteq> []"
    by (simp only: csr_norm_doc) simp
  have a2: "csrSectionStep ''== mtvec Register\<newline>[#norm:mtvec_desc]#The mtvec register holds the trap vector configuration.#\<newline>''
      (Map.empty(''mtvec'' \<mapsto> ''Earlier text for mtvec.''))
      (0, ''== mtvec Register'', [''=='', ''mtvec''])
    = (Map.empty(''mtvec'' \<mapsto> ''Earlier text for mtvec.''))
        (headingName (0, ''== mtvec Register'', [''=='', ''mtvec'']) \<mapsto>
          join '' '' (sectionNormTexts (headingSection ''== mtvec Register\<newline>[#norm:mtvec_desc]#The mtvec register holds the trap vector configuration.#\<newline>'' 1500
      (0, ''== mtvec Register'', [''=='', ''mtvec'']))))"
    using h2 csr_section_overwrites [where content = "''== mtvec Register\<newline>[#norm:mtvec_desc]#The mtvec register holds the trap vector configuration.#\<newline>''"
        and mt = "(0, ''== mtvec Register'', [''=='', ''mtvec''])"
        and cleaned = "[]"
        and m = "Map.empty(''mtvec'' \<mapsto> ''Earlier text for mtvec.'')"]
    by blast
  have h3: "sectionNormTexts (headingSection ''== mtvec\<newline>\<newline>Too short.\<newline>'' 1500
        (0, ''== mtvec\<newline>'', [''=='', ''mtvec''])) = [] \<and>
      firstParagraph (str_split [CHR 0x0A, CHR 0x0A] []
        (headingSection ''== mtvec\<newline>\<newline>Too short.\<newline>'' 1500
          (0, ''== mtvec\<newline>'', [''=='', ''mtvec'']))) = None"
    by (simp only: csr_short_doc)
  have a3: "csrSectionStep ''== mtvec\<newline>\<newline>Too short.\<newline>''
      (Map.empty(''mtvec'' \<mapsto> ''Earlier text for mtvec.''))
      (0, ''== mtvec\<newline>'', [''=='', ''mtvec''])
    = Map.empty(''mtvec'' \<mapsto> ''Earlier text for mtvec.'')"
    using h3 csr_section_overwrites [where content = "''== mtvec\<newline>\<newline>Too short.\<newline>''"
        and mt = "(0, ''== mtvec\<newline>'', [''=='', ''mtvec''])"
        and cleaned = "[]"
        and m = "Map.empty(''mtvec'' \<mapsto> ''Earlier text for mtvec.'')"]
    by blast
  from a1 have b1: "csrSectionStep ''== mtvec\<newline>\<newline>The trap vector base address is held in this register.\<newline>''
      (Map.empty(''mtvec'' \<mapsto> ''Earlier text for mtvec, from a normative span.''))
      (0, ''== mtvec\<newline>'', [''=='', ''mtvec''])
   = Map.empty(''mtvec'' \<mapsto> ''The trap vector base address is held in this register.'')"
    by (simp only: n s fun_upd_upd)
  from a2 have b2: "csrSectionStep ''== mtvec Register\<newline>[#norm:mtvec_desc]#The mtvec register holds the trap vector configuration.#\<newline>''
      (Map.empty(''mtvec'' \<mapsto> ''Earlier text for mtvec.''))
      (0, ''== mtvec Register'', [''=='', ''mtvec''])
   = Map.empty(''mtvec'' \<mapsto> ''The mtvec register holds the trap vector configuration.'')"
    by (simp only: n j csr_norm_doc fun_upd_upd)
  from b1 b2 a3 show ?thesis by blast
qed

text \<open>
  Claim C5 as stated fails on the code: the second file has a heading for a register that
  already has an entry from normative text, its section has no normative span, and the
  fallback paragraph replaces the entry.
\<close>

theorem csr_fallback_counterexample:
  "snd (extractDescriptionsFromAdoc
     [''== mtvec Register\<newline>[#norm:mtvec_desc]#The mtvec register holds the trap vector configuration.#\<newline>'',
      ''== mtvec\<newline>\<newline>The trap vector base address is held in this register.\<newline>'']) ''mtvec''
     = Some ''The trap vector base address is held in this register.''
   \<and> snd (extractDescriptionsFromAdoc
     [''== mtvec Register\<newline>[#norm:mtvec_desc]#The mtvec register holds the trap vector configuration.#\<newline>'']) ''mtvec''
     = Some ''The mtvec register holds the trap vector configuration.''
   \<and> sectionNormTexts (headingSection ''== mtvec\<newline>\<newline>The trap vector base address is held in this register.\<newline>'' 1500
        (0, ''== mtvec\<newline>'', [''=='', ''mtvec''])) = []"
  by code_simp

section \<open>Prose extraction: precedence of the normative text\<close>





lemma instrSectionStep_keeps:
  assumes "m n = Some t"
    and "headingName mt = n \<longrightarrow> sectionNormTexts (headingSection content 2000 mt) = []"
  shows "instrSectionStep content m mt n = Some t"
  using assms
  by (cases mt) (auto simp: instrSectionStep_def headingName_def headingSection_def Let_def
      split: option.splits)














section \<open>Markup cleaning\<close>

lemma lit_ok_set: "lit_ok False l s \<Longrightarrow> set l \<subseteq> set s"
proof -
  assume a: "lit_ok False l s"
  then have "list_all2 (=) l (take (length l) s)"
    by (simp add: lit_ok_def)
  then have "l = take (length l) s" by (simp add: list_all2_eq)
  then have "set l = set (take (length l) s)" by simp
  then show ?thesis using set_take_subset by fastforce
qed

lemma rxm_Seq_Lit_fail:
  "\<not> lit_ok ic l r \<Longrightarrow> rxm ic ml (Seq (Lit l) b) (p, r, g) = []"
  by simp

lemma rxm_Bol_Seq_Lit_fail:
  "\<not> lit_ok ic l r \<Longrightarrow> rxm ic ml (Seq Bol (Seq (Lit l) b)) (p, r, g) = []"
  by (simp split: option.splits)

lemma rx_at_Lit_first:
  assumes "c \<in> set l" "c \<notin> set s"
  shows "rx_at (False, ml, Seq (Lit l) b) p s = None"
proof -
  have "\<not> lit_ok False l s" using lit_ok_set [of l s] assms by auto
  then show ?thesis by (simp add: rx_at_def)
qed

lemma rx_at_Bol_Lit_first:
  assumes "c \<in> set l" "c \<notin> set s"
  shows "rx_at (False, ml, Seq Bol (Seq (Lit l) b)) p s = None"
proof -
  have "\<not> lit_ok False l s" using lit_ok_set [of l s] assms by auto
  then show ?thesis by (simp add: rx_at_def split: option.splits)
qed

lemma rx_replace_id:
  "(\<And>p s'. set s' \<subseteq> set s \<Longrightarrow> rx_at re p s' = None) \<Longrightarrow> rx_replace re tmpl p s = s"
proof (induction s arbitrary: p)
  case Nil
  then show ?case by simp
next
  case (Cons c cs)
  have "rx_at re p (c # cs) = None" by (rule Cons.prems) simp
  moreover have "rx_replace re tmpl (Some c) cs = cs"
  proof (rule Cons.IH)
    fix p s'
    assume "set s' \<subseteq> set cs"
    then show "rx_at re p s' = None" by (intro Cons.prems) auto
  qed
  ultimately show ?case by simp
qed

lemma stage_regexes_need_markup:
  assumes "set s \<inter> markupChars = {}"
  shows "rx_at normSpanRe p s = None" "rx_at xrefRe p s = None" "rx_at anchorRe p s = None"
    "rx_at boldRe p s = None" "rx_at starRe p s = None" "rx_at underscoreRe p s = None"
    "rx_at codeRe p s = None" "rx_at footnoteRe p s = None" "rx_at attrRe p s = None"
proof -
  from assms have n: "CHR ''['' \<notin> set s" "CHR ''<'' \<notin> set s" "CHR ''*'' \<notin> set s"
    "CHR ''_'' \<notin> set s" "CHR 0x60 \<notin> set s"
    by (auto simp: markupChars_def)
  show "rx_at normSpanRe p s = None"
    unfolding normSpanRe_def seqs.simps by (rule rx_at_Lit_first [OF _ n(1)]) simp
  show "rx_at xrefRe p s = None"
    unfolding xrefRe_def seqs.simps by (rule rx_at_Lit_first [OF _ n(2)]) simp
  show "rx_at anchorRe p s = None"
    unfolding anchorRe_def seqs.simps by (rule rx_at_Lit_first [OF _ n(1)]) simp
  show "rx_at boldRe p s = None"
    unfolding boldRe_def seqs.simps by (rule rx_at_Lit_first [OF _ n(3)]) simp
  show "rx_at starRe p s = None"
    unfolding starRe_def seqs.simps by (rule rx_at_Lit_first [OF _ n(3)]) simp
  show "rx_at underscoreRe p s = None"
    unfolding underscoreRe_def seqs.simps by (rule rx_at_Lit_first [OF _ n(4)]) simp
  show "rx_at codeRe p s = None"
    unfolding codeRe_def seqs.simps by (rule rx_at_Lit_first [OF _ n(5)]) simp
  show "rx_at footnoteRe p s = None"
    unfolding footnoteRe_def seqs.simps by (rule rx_at_Lit_first [OF _ n(1)]) simp
  show "rx_at attrRe p s = None"
    unfolding attrRe_def seqs.simps by (rule rx_at_Bol_Lit_first [OF _ n(1)]) simp
qed

lemma stage_id:
  assumes "set s \<inter> markupChars = {}"
    and "\<And>p s'. set s' \<inter> markupChars = {} \<Longrightarrow> rx_at re p s' = None"
  shows "rx_replace re tmpl p s = s"
proof (rule rx_replace_id)
  fix p s'
  assume "set s' \<subseteq> set s"
  with assms(1) have "set s' \<inter> markupChars = {}" by auto
  then show "rx_at re p s' = None" by (rule assms(2))
qed

lemma rx_replace_id_lines:
  assumes "rx_at re p s = None"
    and "\<And>c s'. \<not> isLineTerminator c \<Longrightarrow> rx_at re (Some c) s' = None"
    and "\<forall>c \<in> set s. \<not> isLineTerminator c"
  shows "rx_replace re tmpl p s = s"
  using assms(1,3)
proof (induction s arbitrary: p)
  case Nil
  then show ?case by simp
next
  case (Cons c cs)
  have "rx_at re (Some c) cs = None" using Cons.prems(2) by (intro assms(2)) simp
  then have "rx_replace re tmpl (Some c) cs = cs" using Cons.prems(2) by (intro Cons.IH) auto
  then show ?case using Cons.prems(1) by simp
qed

lemma colonLine_mid: "\<not> isLineTerminator c \<Longrightarrow> rx_at colonLineRe (Some c) s = None"
  by (simp add: rx_at_def colonLineRe_def)

lemma colonLine_start: "\<not> startsWith s '':'' \<Longrightarrow> rx_at colonLineRe None s = None"
proof -
  assume a: "\<not> startsWith s '':''"
  have "\<not> lit_ok False '':'' s"
  proof
    assume "lit_ok False '':'' s"
    then have "take 1 s = '':''"
      by (cases s) (auto simp: lit_ok_def)
    with a show False by (simp add: startsWith_def)
  qed
  then show ?thesis unfolding colonLineRe_def seqs.simps
    by (simp add: rx_at_def)
qed

lemma markup_stages_id:
  assumes "set s \<inter> markupChars = {}" "\<not> startsWith s '':''" "\<forall>c \<in> set s. \<not> isLineTerminator c"
  shows "foldl (\<lambda>t stage. rx_replace (fst stage) (snd stage) None t) s cleanStages
     = rx_replace wsRunRe (\<lambda>g. '' '') None s"
proof -
  have "rx_replace colonLineRe (\<lambda>g. []) None s = s"
    using colonLine_start [OF assms(2)] colonLine_mid assms(3) by (rule rx_replace_id_lines)
  then show ?thesis
    unfolding cleanStages_def
    by (simp add: stage_id [OF assms(1)] stage_regexes_need_markup)
qed

lemma cls_mem_Space: "cls_mem ic Space = isWhiteSpace"
  by (rule ext) simp

lemma rx_at_ws:
  "rx_at wsRunRe p s =
     (if s \<noteq> [] \<and> isWhiteSpace (hd s) then Some (length (takeWhile isWhiteSpace s), []) else None)"
proof (cases "s \<noteq> [] \<and> isWhiteSpace (hd s)")
  case True
  then obtain c cs where s: "s = c # cs" and c: "isWhiteSpace c" by (cases s) auto
  let ?n = "length (takeWhile isWhiteSpace s)"
  have n: "?n = Suc (length (takeWhile isWhiteSpace cs))" using s c by simp
  have le: "?n \<le> length s" by (rule length_takeWhile_le)
  have "rev [1..<Suc ?n] = ?n # rev [1..<?n]" using n by simp
  then have "rxm False False (Rep 1 None Space) (p, s, []) =
      advance (p, s, []) ?n # map (advance (p, s, [])) (rev [1..<?n])"
    by (simp add: cls_mem_Space del: upt_Suc)
  then have "rx_at wsRunRe p s = Some (length s - length (drop ?n s), [])"
    by (simp add: rx_at_def wsRunRe_def Plus_def advance_def)
  then show ?thesis using True le by simp
next
  case False
  then have "length (takeWhile isWhiteSpace s) = 0" by (cases s) auto
  then have "rxm False False (Rep 1 None Space) (p, s, []) = []"
    by (simp add: cls_mem_Space)
  then show ?thesis using False by (simp add: rx_at_def wsRunRe_def Plus_def)
qed

lemma collapseAux_True: "collapseAux True cs = collapseAux False (dropWhile isWhiteSpace cs)"
  by (induction cs) auto

lemma rx_replace_ws: "rx_replace wsRunRe (\<lambda>g. '' '') p s = collapseAux False s"
proof (induction s arbitrary: p rule: length_induct)
  case (1 s)
  show ?case
  proof (cases s)
    case Nil
    then show ?thesis by (simp add: rx_at_ws)
  next
    case (Cons c cs)
    show ?thesis
    proof (cases "isWhiteSpace c")
      case False
      have "length cs < length s" using Cons by simp
      then have "rx_replace wsRunRe (\<lambda>g. '' '') (Some c) cs = collapseAux False cs"
        using 1 by blast
      then show ?thesis using Cons False by (simp add: rx_at_ws)
    next
      case True
      let ?n = "length (takeWhile isWhiteSpace (c # cs))"
      have n: "?n = Suc (length (takeWhile isWhiteSpace cs))" using True by simp
      have d: "drop ?n (c # cs) = dropWhile isWhiteSpace cs"
        using True by (simp add: dropWhile_eq_drop)
      have "length (dropWhile isWhiteSpace cs) < length s"
        using Cons length_dropWhile_le [of isWhiteSpace cs] by simp
      then have ih: "\<And>q. rx_replace wsRunRe (\<lambda>g. '' '') q (dropWhile isWhiteSpace cs)
          = collapseAux False (dropWhile isWhiteSpace cs)"
        using 1 by blast
      have "rx_replace wsRunRe (\<lambda>g. '' '') p (c # cs) =
          '' '' @ rx_replace wsRunRe (\<lambda>g. '' '') (Some ((c # cs) ! (?n - 1))) (drop ?n (c # cs))"
        using True n by (simp add: rx_at_ws del: takeWhile.simps drop_Suc_Cons nth_Cons_Suc)
      also have "\<dots> = CHR '' '' # collapseAux False (dropWhile isWhiteSpace cs)"
        unfolding d by (simp add: ih)
      also have "\<dots> = collapseAux False (c # cs)"
        using True by (simp add: collapseAux_True)
      finally show ?thesis using Cons by simp
    qed
  qed
qed

lemma adjacent_ws_Nil [simp]: "\<not> adjacent_ws []"
  by (simp add: adjacent_ws_def)

lemma adjacent_ws_Cons:
  "adjacent_ws (c # u) = ((u \<noteq> [] \<and> isWhiteSpace c \<and> isWhiteSpace (hd u)) \<or> adjacent_ws u)"
proof
  assume "adjacent_ws (c # u)"
  then obtain xs a b ys where e: "c # u = xs @ a # b # ys" and w: "isWhiteSpace a" "isWhiteSpace b"
    by (auto simp: adjacent_ws_def)
  show "(u \<noteq> [] \<and> isWhiteSpace c \<and> isWhiteSpace (hd u)) \<or> adjacent_ws u"
  proof (cases xs)
    case Nil
    with e w show ?thesis by auto
  next
    case (Cons x xs')
    with e have "u = xs' @ a # b # ys" by simp
    with w show ?thesis by (auto simp: adjacent_ws_def)
  qed
next
  assume "(u \<noteq> [] \<and> isWhiteSpace c \<and> isWhiteSpace (hd u)) \<or> adjacent_ws u"
  then show "adjacent_ws (c # u)"
  proof
    assume a: "u \<noteq> [] \<and> isWhiteSpace c \<and> isWhiteSpace (hd u)"
    then obtain d ds where "u = d # ds" by (cases u) auto
    with a have "c # u = [] @ c # d # ds \<and> isWhiteSpace c \<and> isWhiteSpace d" by simp
    then show ?thesis unfolding adjacent_ws_def by blast
  next
    assume "adjacent_ws u"
    then obtain xs a b ys where "u = xs @ a # b # ys" "isWhiteSpace a" "isWhiteSpace b"
      by (auto simp: adjacent_ws_def)
    then have "c # u = (c # xs) @ a # b # ys \<and> isWhiteSpace a \<and> isWhiteSpace b" by simp
    then show ?thesis unfolding adjacent_ws_def by blast
  qed
qed

lemma adjacent_ws_append: "adjacent_ws v \<Longrightarrow> adjacent_ws (u @ v)"
proof -
  assume "adjacent_ws v"
  then obtain xs a b ys where "v = xs @ a # b # ys" "isWhiteSpace a" "isWhiteSpace b"
    by (auto simp: adjacent_ws_def)
  then have "u @ v = (u @ xs) @ a # b # ys \<and> isWhiteSpace a \<and> isWhiteSpace b" by simp
  then show ?thesis unfolding adjacent_ws_def by blast
qed

lemma adjacent_ws_rev_imp: "adjacent_ws s \<Longrightarrow> adjacent_ws (rev s)"
proof -
  assume "adjacent_ws s"
  then obtain xs a b ys where "s = xs @ a # b # ys" "isWhiteSpace a" "isWhiteSpace b"
    by (auto simp: adjacent_ws_def)
  then have "rev s = rev ys @ b # a # rev xs \<and> isWhiteSpace b \<and> isWhiteSpace a" by simp
  then show ?thesis unfolding adjacent_ws_def by blast
qed

lemma adjacent_ws_rev: "adjacent_ws (rev s) = adjacent_ws s"
  using adjacent_ws_rev_imp [of s] adjacent_ws_rev_imp [of "rev s"] by auto

lemma adjacent_ws_dropWhile: "\<not> adjacent_ws s \<Longrightarrow> \<not> adjacent_ws (dropWhile P s)"
  using adjacent_ws_append [of "dropWhile P s" "takeWhile P s"] by auto

lemma adjacent_ws_trim: "\<not> adjacent_ws s \<Longrightarrow> \<not> adjacent_ws (trim s)"
  by (simp add: trim_def adjacent_ws_rev adjacent_ws_dropWhile)

lemma set_trim: "set (trim s) \<subseteq> set s"
proof -
  have "set (trim s) = set (dropWhile isWhiteSpace (rev (dropWhile isWhiteSpace s)))"
    by (simp add: trim_def)
  also have "\<dots> \<subseteq> set (rev (dropWhile isWhiteSpace s))" by (rule set_dropWhileD [THEN subsetI])
  also have "\<dots> \<subseteq> set s" using set_dropWhileD by fastforce
  finally show ?thesis .
qed

lemma collapse_props:
  "\<not> adjacent_ws (collapseAux b s) \<and>
   (\<forall>c \<in> set (collapseAux b s). isWhiteSpace c \<longrightarrow> c = CHR '' '') \<and>
   (b \<longrightarrow> collapseAux b s = [] \<or> \<not> isWhiteSpace (hd (collapseAux b s)))"
proof (induction s arbitrary: b)
  case Nil
  then show ?case by simp
next
  case (Cons c cs)
  show ?case
  proof (cases "isWhiteSpace c")
    case False
    then show ?thesis using Cons [of False] by (simp add: adjacent_ws_Cons)
  next
    case True
    then show ?thesis using Cons [of True] by (cases b) (auto simp: adjacent_ws_Cons)
  qed
qed

lemma collapse_fix:
  "\<not> adjacent_ws w \<Longrightarrow> \<forall>c \<in> set w. isWhiteSpace c \<longrightarrow> c = CHR '' '' \<Longrightarrow> collapseAux False w = w"
proof (induction w)
  case Nil
  then show ?case by simp
next
  case (Cons c cs)
  then have ih: "collapseAux False cs = cs" by (simp add: adjacent_ws_Cons)
  show ?case
  proof (cases "isWhiteSpace c")
    case False
    then show ?thesis using ih by simp
  next
    case True
    then have c: "c = CHR '' ''" using Cons.prems by simp
    have "cs = [] \<or> \<not> isWhiteSpace (hd cs)"
      using Cons.prems(1) True by (auto simp: adjacent_ws_Cons)
    then have "dropWhile isWhiteSpace cs = cs" by (cases cs) auto
    then have "collapseAux True cs = cs" using ih by (simp add: collapseAux_True)
    then show ?thesis using True c by simp
  qed
qed

lemma trim_ends:
  "trim s = [] \<or> (\<not> isWhiteSpace (hd (trim s)) \<and> \<not> isWhiteSpace (last (trim s)))"
proof (cases "trim s = []")
  case True
  then show ?thesis by simp
next
  case False
  let ?v = "dropWhile isWhiteSpace s"
  let ?r = "dropWhile isWhiteSpace (rev ?v)"
  have t: "trim s = rev ?r" by (simp add: trim_def)
  with False have r: "?r \<noteq> []" by simp
  have v: "?v \<noteq> []"
  proof
    assume e: "?v = []"
    have "?r = []" unfolding e by simp
    with r show False by blast
  qed
  have "\<not> isWhiteSpace (hd ?r)" using r by (rule hd_dropWhile)
  then have l: "\<not> isWhiteSpace (last (trim s))" using t r by (simp add: last_rev)
  have "last ?r = last (rev ?v)"
    using r by (metis last_appendR takeWhile_dropWhile_id)
  also have "\<dots> = hd ?v" using v by (simp add: last_rev)
  finally have "hd (trim s) = hd ?v" using t r by (simp add: hd_rev)
  moreover have "\<not> isWhiteSpace (hd ?v)" using v by (rule hd_dropWhile)
  ultimately show ?thesis using l by simp
qed

lemma trim_fix:
  assumes "w = [] \<or> (\<not> isWhiteSpace (hd w) \<and> \<not> isWhiteSpace (last w))"
  shows "trim w = w"
proof (cases "w = []")
  case True
  then show ?thesis by (simp add: trim_def)
next
  case False
  with assms have h: "\<not> isWhiteSpace (hd w)" and l: "\<not> isWhiteSpace (last w)" by auto
  from False h have "dropWhile isWhiteSpace w = w" by (cases w) auto
  moreover have "dropWhile isWhiteSpace (rev w) = rev w"
    using False l by (cases "rev w") (auto simp: last_rev [symmetric] dest: arg_cong [where f = hd])
  ultimately show ?thesis by (simp add: trim_def)
qed

lemma normalize_idem:
  "trim (collapseAux False (trim (collapseAux False z))) = trim (collapseAux False z)"
proof -
  let ?u = "collapseAux False z"
  have "\<not> adjacent_ws (trim ?u)"
    using collapse_props [of False z] by (simp add: adjacent_ws_trim)
  moreover have "\<forall>c \<in> set (trim ?u). isWhiteSpace c \<longrightarrow> c = CHR '' ''"
    using collapse_props [of False z] set_trim [of ?u] by blast
  ultimately have "collapseAux False (trim ?u) = trim ?u" by (rule collapse_fix)
  moreover have "trim (trim ?u) = trim ?u" by (rule trim_fix) (rule trim_ends)
  ultimately show ?thesis by simp
qed

lemma cleanAdocText_as_normalize:
  "\<exists>z. cleanAdocText x = trim (collapseAux False z)"
  unfolding cleanAdocText_def cleanStages_def by (simp add: rx_replace_ws) blast

lemma cleanAdocText_one_line: "\<forall>c \<in> set (cleanAdocText x). \<not> isLineTerminator c"
proof
  fix c
  assume c: "c \<in> set (cleanAdocText x)"
  obtain z where z: "cleanAdocText x = trim (collapseAux False z)"
    using cleanAdocText_as_normalize by blast
  with c have "c \<in> set (collapseAux False z)" using set_trim by fastforce
  then have "isWhiteSpace c \<longrightarrow> c = CHR '' ''" using collapse_props [of False z] by blast
  then show "\<not> isLineTerminator c"
    by (auto simp: isLineTerminator_def isWhiteSpace_def)
qed

text \<open>
  Claim C6, as the code has it.  Cleaning is idempotent on every input whose cleaned text
  has no bracket, angle, star, underscore or backquote left and does not begin with a
  colon: no markup pattern matches the cleaned text, and the white-space normalisation is
  idempotent.
\<close>

theorem clean_idempotent_without_markup:
  assumes "set (cleanAdocText x) \<inter> markupChars = {}"
    and "\<not> startsWith (cleanAdocText x) '':''"
  shows "cleanAdocText (cleanAdocText x) = cleanAdocText x"
proof -
  obtain z where z: "cleanAdocText x = trim (collapseAux False z)"
    using cleanAdocText_as_normalize by blast
  have "cleanAdocText (cleanAdocText x) =
      trim (rx_replace wsRunRe (\<lambda>g. '' '') None (cleanAdocText x))"
    unfolding cleanAdocText_def [of "cleanAdocText x"]
    by (simp only: markup_stages_id [OF assms cleanAdocText_one_line])
  also have "\<dots> = trim (collapseAux False (cleanAdocText x))" by (simp only: rx_replace_ws)
  also have "\<dots> = cleanAdocText x" unfolding z by (rule normalize_idem)
  finally show ?thesis .
qed

lemma wit_clean:
  "cleanAdocText ''  The *quick* **brown** _fox_: <<x,y>> jumps\<newline>over.  '' = ''The quick brown fox: jumps over.''"
  by code_simp

theorem clean_idempotent_without_markup_witness:
  "set (cleanAdocText ''  The *quick* **brown** _fox_: <<x,y>> jumps\<newline>over.  '') \<inter> markupChars = {}
   \<and> \<not> startsWith (cleanAdocText ''  The *quick* **brown** _fox_: <<x,y>> jumps\<newline>over.  '') '':''
   \<and> cleanAdocText (cleanAdocText ''  The *quick* **brown** _fox_: <<x,y>> jumps\<newline>over.  '')
       = ''The quick brown fox: jumps over.''"
proof -
  have a: "set (cleanAdocText ''  The *quick* **brown** _fox_: <<x,y>> jumps\<newline>over.  '') \<inter> markupChars = {}"
    unfolding wit_clean by (simp add: markupChars_def)
  have b: "\<not> startsWith (cleanAdocText ''  The *quick* **brown** _fox_: <<x,y>> jumps\<newline>over.  '') '':''"
    unfolding wit_clean by (simp add: startsWith_def)
  show ?thesis
    using clean_idempotent_without_markup [OF a b] a b by (simp only: wit_clean) simp
qed

text \<open>
  Claim C6 as stated fails on the code: two backquotes, \<open>a\<close>, two backquotes clean to
  \<open>a\<close> between single backquotes, which cleans to \<open>a\<close>.
\<close>

theorem clean_not_idempotent_counterexample:
  "cleanAdocText (cleanAdocText [CHR 0x60, CHR 0x60, CHR ''a'', CHR 0x60, CHR 0x60])
     \<noteq> cleanAdocText [CHR 0x60, CHR 0x60, CHR ''a'', CHR 0x60, CHR 0x60]"
  by code_simp

section \<open>Encoding-line grammar: bit-range tokens\<close>

lemma rx1_Seq:
  "rx1 ic ml a st = Some st' \<Longrightarrow> rx1 ic ml b st' = Some st'' \<Longrightarrow> rx1 ic ml (Seq a b) st = Some st''"
  by (auto simp: rx1_def split: list.splits)

lemma rx1_Bol_start: "rx1 ic ml Bol (None, r, g) = Some (None, r, g)"
  by (simp add: rx1_def)

lemma rx1_Eol_end: "rx1 ic ml Eol (p, [], g) = Some (p, [], g)"
  by (simp add: rx1_def)

lemma rx1_Lit:
  assumes "l \<noteq> []"
  shows "rx1 False ml (Lit l) (p, l @ rest, g) = Some (Some (last l), rest, g)"
proof -
  have "lit_ok False l (l @ rest)"
    by (simp add: lit_ok_def list_all2_eq [symmetric])
  moreover have "(l @ rest) ! (length l - 1) = last l"
    using assms by (simp add: nth_append last_conv_nth)
  ultimately show ?thesis using assms by (simp add: rx1_def advance_def)
qed

lemma takeWhile_run:
  assumes "\<forall>c \<in> set xs. P c" "rest = [] \<or> \<not> P (hd rest)"
  shows "takeWhile P (xs @ rest) = xs"
proof -
  have "takeWhile P rest = []" using assms(2) by (cases rest) auto
  then show ?thesis using assms(1) by simp
qed

lemma rx1_Grp_Plus:
  assumes "xs \<noteq> []" "\<forall>c \<in> set xs. cls_mem ic k c" "rest = [] \<or> \<not> cls_mem ic k (hd rest)"
  shows "rx1 ic ml (Grp (Plus k)) (p, xs @ rest, g) = Some (Some (last xs), rest, g @ [xs])"
proof -
  let ?n = "length xs"
  have t: "takeWhile (cls_mem ic k) (xs @ rest) = xs"
    using assms(2,3) by (rule takeWhile_run)
  obtain m where m: "?n = Suc m" using assms(1) by (cases xs) auto
  have "rev [1..<Suc ?n] = ?n # rev [1..<?n]" using m by simp
  then have "rxm ic ml (Rep 1 None k) (p, xs @ rest, g) =
      advance (p, xs @ rest, g) ?n # map (advance (p, xs @ rest, g)) (rev [1..<?n])"
    by (simp add: t del: upt_Suc)
  moreover have "advance (p, xs @ rest, g) ?n = (Some (last xs), rest, g)"
    using assms(1) by (simp add: advance_def nth_append last_conv_nth)
  ultimately show ?thesis by (simp add: rx1_def Plus_def)
qed

lemma rx_at_rx1:
  "rx1 ic ml e (p, r, []) = Some (p', r', g) \<Longrightarrow> rx_at (ic, ml, e) p r = Some (length r - length r', g)"
  by (auto simp: rx1_def rx_at_def split: list.splits)

lemma rx_match_start:
  "rx_at re None s = Some (n, g) \<Longrightarrow> rx_match re s = Some g"
  by (cases s) (simp_all add: rx_match_def)

lemma rx_at_Bol_mid: "rx_at (ic, False, Seq Bol e) (Some c) s = None"
  by (simp add: rx_at_def)

lemma rx_exec_Bol_mid: "rx_exec (ic, False, Seq Bol e) (Some c) s = None"
  by (induction s arbitrary: c) (simp_all add: rx_at_Bol_mid)

lemma rx_match_anchored_None:
  "rx_at (ic, False, Seq Bol e) None s = None \<Longrightarrow> rx_match (ic, False, Seq Bol e) s = None"
  by (cases s) (simp_all add: rx_match_def rx_exec_Bol_mid)

lemma digit_facts:
  assumes "isDigit c"
  shows "\<not> isWhiteSpace c" "\<not> isLineTerminator c" "c \<noteq> CHR ''.''" "c \<noteq> CHR ''=''" "c \<noteq> CHR ''x''"
    "c \<noteq> CHR ''-''" "c \<noteq> CHR ''+''" "isRadixDigit 10 c" "c \<noteq> CHR ''X''"
  using assms
  by (auto simp: isDigit_def isWhiteSpace_def isLineTerminator_def isRadixDigit_def digitVal_def
      less_eq_char_def)

lemma hex_facts:
  assumes "isRadixDigit 16 c"
  shows "\<not> isWhiteSpace c" "\<not> isLineTerminator c" "c \<noteq> CHR ''=''"
  using assms
  by (auto simp: isDigit_def isLower_def isUpper_def isWhiteSpace_def isLineTerminator_def
      isRadixDigit_def digitVal_def less_eq_char_def split: if_splits)

lemma positional_Cons:
  "positional R (c # ds) =
     (case digitVal c of None \<Rightarrow> 0 | Some d \<Rightarrow> d) * R ^ length ds + positional R ds"
  by (simp add: positional_def sum.lessThan_Suc_shift del: sum.lessThan_Suc)

lemma foldl_positional:
  "foldl (\<lambda>acc c. acc * R + (case digitVal c of None \<Rightarrow> 0 | Some d \<Rightarrow> d)) a ds
     = a * R ^ length ds + positional R ds"
proof (induction ds arbitrary: a)
  case Nil
  then show ?case by (simp add: positional_def)
next
  case (Cons c ds)
  then show ?case by (simp add: positional_Cons algebra_simps)
qed

lemma digitsValue_positional: "digitsValue R ds = positional R ds"
  by (simp add: digitsValue_def foldl_positional)

lemma dec_not_0x: "isDecLiteral ds \<Longrightarrow> \<not> startsWith ds ''0x'' \<and> \<not> startsWith ds ''0X''"
proof -
  assume a: "isDecLiteral ds"
  show ?thesis
  proof (cases ds)
    case Nil
    then show ?thesis by (simp add: startsWith_def)
  next
    case (Cons c cs)
    note outer = Cons
    show ?thesis
    proof (cases cs)
      case Nil
      with outer show ?thesis by (simp add: startsWith_def)
    next
      case (Cons d ds')
      with a outer have "isDigit d" by (simp add: isDecLiteral_def)
      then have "d \<noteq> CHR ''x''" "d \<noteq> CHR ''X''" by (simp_all add: digit_facts)
      with Cons outer show ?thesis by (simp add: startsWith_def)
    qed
  qed
qed

lemma parseInt_dec:
  assumes "isDecLiteral ds"
  shows "parseInt ds None = Num (int (positional 10 ds))"
proof -
  have ne: "ds \<noteq> []" using assms by (simp add: isDecLiteral_def)
  have all: "\<forall>x \<in> set ds. isDigit x" using assms by (simp add: isDecLiteral_def list_all_iff)
  then have c: "isDigit (hd ds)" using ne by simp
  have t: "trimStart ds = ds"
    using ne c by (cases ds) (simp_all add: trimStart_def digit_facts)
  have tw: "takeWhile (isRadixDigit 10) ds = ds"
    using all by (simp add: digit_facts)
  have sg: "hd ds \<noteq> CHR ''-''" "hd ds \<noteq> CHR ''+''" using c by (simp_all add: digit_facts)
  have "parseInt ds None = Num (int (digitsValue 10 ds))"
    unfolding parseInt_def t
    using dec_not_0x [OF assms] ne
    by (simp add: sg tw split: list.splits)
  then show ?thesis by (simp add: digitsValue_positional)
qed

lemma parseInt_hex:
  assumes "isHexDigits xs"
  shows "parseInt (''0x'' @ xs) (Some 16) = Num (int (positional 16 xs))"
proof -
  have ne: "xs \<noteq> []" using assms by (simp add: isHexDigits_def)
  have all: "\<forall>x \<in> set xs. isRadixDigit 16 x" using assms by (simp add: isHexDigits_def list_all_iff)
  have tw: "takeWhile (isRadixDigit 16) xs = xs"
    using all by simp
  have "parseInt (''0x'' @ xs) (Some 16) = Num (int (digitsValue 16 xs))"
    unfolding parseInt_def
    using ne
    by (simp add: trimStart_def isWhiteSpace_def startsWith_def tw split: list.splits)
  then show ?thesis by (simp add: digitsValue_positional)
qed

lemma fieldValue_dec: "isDecLiteral ds \<Longrightarrow> fieldValue ds = Num (int (positional 10 ds))"
  using dec_not_0x [of ds] by (simp add: fieldValue_def parseInt_dec)

lemma fieldValue_hex:
  assumes "isHexDigits xs"
  shows "fieldValue (''0x'' @ xs) = Num (int (positional 16 xs))"
proof -
  have "startsWith (''0x'' @ xs) ''0x''" by (simp add: startsWith_def)
  then show ?thesis unfolding fieldValue_def by (simp only: if_True parseInt_hex [OF assms])
qed

lemma rx_at_wsRe_None: "\<not> isWhiteSpace c \<Longrightarrow> rx_at wsRe p (c # cs) = None"
  by (simp add: rx_at_def wsRe_def Plus_def)

lemma rx_split_no_ws:
  "\<forall>c \<in> set s. \<not> isWhiteSpace c \<Longrightarrow> rx_split wsRe p cur s = [cur @ s]"
proof (induction s arbitrary: p cur)
  case Nil
  then show ?case by simp
next
  case (Cons c cs)
  then have "rx_split wsRe (Some c) (cur @ [c]) cs = [(cur @ [c]) @ cs]" by simp
  then show ?case using Cons.prems by (simp add: rx_at_wsRe_None)
qed

lemma operands_no_eq: "\<forall>k \<in> set KNOWN_OPERANDS. CHR ''='' \<notin> set k"
  by (simp add: KNOWN_OPERANDS_def)

lemma not_operand: "CHR ''='' \<in> set tok \<Longrightarrow> tok \<notin> set KNOWN_OPERANDS"
  using operands_no_eq by blast

lemma rxm_Seq_Bol_start: "rxm ic ml (Seq Bol e) (None, r, g) = rxm ic ml e (None, r, g)"
  by simp

lemma dec_chars:
  assumes "isDecLiteral ds"
  shows "ds \<noteq> []" "\<forall>c \<in> set ds. cls_mem False Digit c" "\<forall>c \<in> set ds. \<not> isWhiteSpace c"
    "\<forall>c \<in> set ds. \<not> isLineTerminator c" "\<forall>c \<in> set ds. isDigit c"
  using assms by (auto simp: isDecLiteral_def list_all_iff digit_facts)

lemma hex_chars:
  assumes "isHexDigits xs"
  shows "\<forall>c \<in> set (''0x'' @ xs). \<not> isWhiteSpace c" "\<forall>c \<in> set (''0x'' @ xs). \<not> isLineTerminator c"
proof -
  have x: "\<not> isWhiteSpace c \<and> \<not> isLineTerminator c" if "c \<in> set xs" for c
  proof -
    from assms that have "isRadixDigit 16 c" by (simp add: isHexDigits_def list_all_iff)
    then show ?thesis by (simp add: hex_facts)
  qed
  have p: "\<not> isWhiteSpace CHR ''0''" "\<not> isWhiteSpace CHR ''x''"
    "\<not> isLineTerminator CHR ''0''" "\<not> isLineTerminator CHR ''x''"
    by (simp_all add: isWhiteSpace_def isLineTerminator_def)
  show "\<forall>c \<in> set (''0x'' @ xs). \<not> isWhiteSpace c" using x p by auto
  show "\<forall>c \<in> set (''0x'' @ xs). \<not> isLineTerminator c" using x p by auto
qed

lemma rx1_value_end:
  assumes "v \<noteq> []" "\<forall>c \<in> set v. \<not> isLineTerminator c"
  shows "rx1 False False (Seq (Grp (Plus Dot)) Eol) (p, v, g) = Some (Some (last v), [], g @ [v])"
proof -
  have "rx1 False False (Grp (Plus Dot)) (p, v @ [], g) = Some (Some (last v), [], g @ [v])"
    using assms by (intro rx1_Grp_Plus) simp_all
  then have "rx1 False False (Grp (Plus Dot)) (p, v, g) = Some (Some (last v), [], g @ [v])"
    by simp
  then show ?thesis by (rule rx1_Seq) (rule rx1_Eol_end)
qed

lemma rx1_digits_then:
  assumes "isDecLiteral ds" "\<not> isDigit c"
  shows "rx1 False False (Grp (Plus Digit)) (p, ds @ c # rest, g) = Some (Some (last ds), c # rest, g @ [ds])"
  using dec_chars(1,2) [OF assms(1)] assms(2) by (intro rx1_Grp_Plus) simp_all

lemma rx1_eq_value:
  assumes "v \<noteq> []" "\<forall>c \<in> set v. \<not> isLineTerminator c"
  shows "rx1 False False (Seq (Lit ''='') (Seq (Grp (Plus Dot)) Eol)) (p, ''='' @ v, g)
     = Some (Some (last v), [], g @ [v])"
proof -
  have "rx1 False False (Lit ''='') (p, ''='' @ v, g) = Some (Some (last ''=''), v, g)"
    by (rule rx1_Lit) simp
  then show ?thesis by (rule rx1_Seq) (rule rx1_value_end [OF assms])
qed

lemma range_match:
  assumes "isDecLiteral hs" "isDecLiteral ls" "v \<noteq> []" "\<forall>c \<in> set v. \<not> isLineTerminator c"
  shows "rx_match rangeRe (hs @ ''..'' @ ls @ ''='' @ v) = Some [hs, ls, v]"
proof -
  let ?tail = "Seq (Lit ''='') (Seq (Grp (Plus Dot)) Eol)"
  have nd: "\<not> isDigit CHR ''.''" "\<not> isDigit CHR ''=''" by (simp_all add: isDigit_def)
  have s4: "rx1 False False (Seq (Grp (Plus Digit)) ?tail) (Some CHR ''.'', ls @ ''='' @ v, [hs])
      = Some (Some (last v), [], [hs, ls, v])"
  proof (rule rx1_Seq)
    show "rx1 False False (Grp (Plus Digit)) (Some CHR ''.'', ls @ ''='' @ v, [hs])
        = Some (Some (last ls), ''='' @ v, [hs] @ [ls])"
      using rx1_digits_then [OF assms(2) nd(2), of "Some CHR ''.''" v "[hs]"] by simp
    show "rx1 False False ?tail (Some (last ls), ''='' @ v, [hs] @ [ls]) = Some (Some (last v), [], [hs, ls, v])"
      using rx1_eq_value [OF assms(3,4), of "Some (last ls)" "[hs] @ [ls]"] by simp
  qed
  have s3: "rx1 False False (Seq (Lit ''..'') (Seq (Grp (Plus Digit)) ?tail))
      (Some (last hs), ''..'' @ ls @ ''='' @ v, [hs]) = Some (Some (last v), [], [hs, ls, v])"
  proof (rule rx1_Seq)
    show "rx1 False False (Lit ''..'') (Some (last hs), ''..'' @ ls @ ''='' @ v, [hs])
        = Some (Some CHR ''.'', ls @ ''='' @ v, [hs])"
      using rx1_Lit [of "''..''" False "Some (last hs)" "ls @ ''='' @ v" "[hs]"] by simp
    show "rx1 False False (Seq (Grp (Plus Digit)) ?tail) (Some CHR ''.'', ls @ ''='' @ v, [hs])
        = Some (Some (last v), [], [hs, ls, v])"
      by (rule s4)
  qed
  have s2: "rx1 False False (Seq (Grp (Plus Digit)) (Seq (Lit ''..'') (Seq (Grp (Plus Digit)) ?tail)))
      (None, hs @ ''..'' @ ls @ ''='' @ v, []) = Some (Some (last v), [], [hs, ls, v])"
  proof (rule rx1_Seq)
    show "rx1 False False (Grp (Plus Digit)) (None, hs @ ''..'' @ ls @ ''='' @ v, [])
        = Some (Some (last hs), ''..'' @ ls @ ''='' @ v, [hs])"
      using rx1_digits_then [OF assms(1) nd(1), of None "''.'' @ ls @ ''='' @ v" "[]"] by simp
    show "rx1 False False (Seq (Lit ''..'') (Seq (Grp (Plus Digit)) ?tail))
        (Some (last hs), ''..'' @ ls @ ''='' @ v, [hs]) = Some (Some (last v), [], [hs, ls, v])"
      by (rule s3)
  qed
  have "rx1 False False (Seq Bol (Seq (Grp (Plus Digit)) (Seq (Lit ''..'') (Seq (Grp (Plus Digit)) ?tail))))
      (None, hs @ ''..'' @ ls @ ''='' @ v, []) = Some (Some (last v), [], [hs, ls, v])"
    by (rule rx1_Seq [OF rx1_Bol_start s2])
  then have "rx_at rangeRe None (hs @ ''..'' @ ls @ ''='' @ v)
      = Some (length (hs @ ''..'' @ ls @ ''='' @ v) - length ([] :: string), [hs, ls, v])"
    unfolding rangeRe_def seqs.simps by (rule rx_at_rx1)
  then show ?thesis by (rule rx_match_start)
qed

lemma single_match:
  assumes "isDecLiteral bs" "v \<noteq> []" "\<forall>c \<in> set v. \<not> isLineTerminator c"
  shows "rx_match singleRe (bs @ ''='' @ v) = Some [bs, v]"
proof -
  let ?tail = "Seq (Lit ''='') (Seq (Grp (Plus Dot)) Eol)"
  have nd: "\<not> isDigit CHR ''=''" by (simp add: isDigit_def)
  have s2: "rx1 False False (Seq (Grp (Plus Digit)) ?tail) (None, bs @ ''='' @ v, [])
      = Some (Some (last v), [], [bs, v])"
  proof (rule rx1_Seq)
    show "rx1 False False (Grp (Plus Digit)) (None, bs @ ''='' @ v, [])
        = Some (Some (last bs), ''='' @ v, [] @ [bs])"
      using rx1_digits_then [OF assms(1) nd, of None v "[]"] by simp
    show "rx1 False False ?tail (Some (last bs), ''='' @ v, [] @ [bs]) = Some (Some (last v), [], [bs, v])"
      using rx1_eq_value [OF assms(2,3), of "Some (last bs)" "[] @ [bs]"] by simp
  qed
  have "rx1 False False (Seq Bol (Seq (Grp (Plus Digit)) ?tail)) (None, bs @ ''='' @ v, [])
      = Some (Some (last v), [], [bs, v])"
    by (rule rx1_Seq [OF rx1_Bol_start s2])
  then have "rx_at singleRe None (bs @ ''='' @ v)
      = Some (length (bs @ ''='' @ v) - length ([] :: string), [bs, v])"
    unfolding singleRe_def seqs.simps by (rule rx_at_rx1)
  then show ?thesis by (rule rx_match_start)
qed

lemma rxm_Grp_Rep_rest:
  "st' \<in> set (rxm ic ml (Grp (Rep lo hi k)) (p, r, g)) \<Longrightarrow>
   \<exists>j. lo \<le> j \<and> j \<le> length (takeWhile (cls_mem ic k) r) \<and> fst (snd st') = drop j r"
  by (cases hi) (fastforce simp: advance_def simp del: upt_Suc)+

lemma range_no_match_single:
  assumes "isDecLiteral bs"
  shows "rx_match rangeRe (bs @ ''='' @ v) = None"
proof -
  let ?tok = "bs @ ''='' @ v"
  let ?R = "Seq (Grp (Plus Digit)) (Seq (Lit ''='') (Seq (Grp (Plus Dot)) Eol))"
  have tw: "takeWhile (cls_mem False Digit) ?tok = bs"
    using dec_chars(2) [OF assms] by (intro takeWhile_run) (simp_all add: isDigit_def)
  have fail: "rxm False False (Seq (Lit ''..'') ?R) st' = []"
    if "st' \<in> set (rxm False False (Grp (Plus Digit)) (None, ?tok, []))" for st'
  proof -
    obtain p' r' g' where st': "st' = (p', r', g')" by (cases st') auto
    from that obtain j where j: "j \<le> length bs" "r' = drop j ?tok"
      using rxm_Grp_Rep_rest [of st' False False 1 None Digit None ?tok "[]"] tw st'
      by (auto simp: Plus_def)
    have "hd r' \<noteq> CHR ''.''"
    proof (cases "j < length bs")
      case True
      then have "hd r' = bs ! j" using j by (simp add: hd_drop_conv_nth nth_append)
      moreover have "isDigit (bs ! j)" using dec_chars(5) [OF assms] True by simp
      ultimately show ?thesis by (auto simp: digit_facts)
    next
      case False
      with j have "j = length bs" by simp
      then have "r' = ''='' @ v" using j by simp
      then show ?thesis by simp
    qed
    then have "\<not> lit_ok False ''..'' r'"
      by (cases r') (auto simp: lit_ok_def)
    then show ?thesis unfolding st' by (rule rxm_Seq_Lit_fail)
  qed
  have "rxm False False (Seq (Grp (Plus Digit)) (Seq (Lit ''..'') ?R)) (None, ?tok, []) = []"
    using fail by (simp del: rxm.simps(6,7) add: Plus_def [symmetric])
  then have "rxm False False (Seq Bol (Seq (Grp (Plus Digit)) (Seq (Lit ''..'') ?R))) (None, ?tok, []) = []"
    by (simp only: rxm_Seq_Bol_start)
  then have "rx_at rangeRe None ?tok = None"
    unfolding rx_at_def rangeRe_def seqs.simps by (simp only: prod.case list.case)
  then show ?thesis unfolding rangeRe_def seqs.simps by (rule rx_match_anchored_None)
qed

lemma punct_not_ws: "\<not> isWhiteSpace CHR ''.''" "\<not> isWhiteSpace CHR ''=''"
  by (simp_all add: isWhiteSpace_def)

lemma parseInt_hex_upper:
  assumes "isHexDigits xs"
  shows "parseInt (''0X'' @ xs) None = Num (int (positional 16 xs))"
proof -
  have ne: "xs \<noteq> []" using assms by (simp add: isHexDigits_def)
  have all: "\<forall>x \<in> set xs. isRadixDigit 16 x" using assms by (simp add: isHexDigits_def list_all_iff)
  have tw: "takeWhile (isRadixDigit 16) xs = xs"
    using all by simp
  have "parseInt (''0X'' @ xs) None = Num (int (digitsValue 16 xs))"
    unfolding parseInt_def
    using ne
    by (simp add: trimStart_def isWhiteSpace_def startsWith_def tw split: list.splits)
  then show ?thesis by (simp add: digitsValue_positional)
qed

lemma fieldValue_hex_upper:
  assumes "isHexDigits xs"
  shows "fieldValue (''0X'' @ xs) = Num (int (positional 16 xs))"
proof -
  have "\<not> startsWith (''0X'' @ xs) ''0x''" by (simp add: startsWith_def)
  then show ?thesis unfolding fieldValue_def by (simp only: if_False parseInt_hex_upper [OF assms])
qed

lemma hex_chars_upper:
  assumes "isHexDigits xs"
  shows "\<forall>c \<in> set (''0X'' @ xs). \<not> isWhiteSpace c" "\<forall>c \<in> set (''0X'' @ xs). \<not> isLineTerminator c"
proof -
  have x: "\<not> isWhiteSpace c \<and> \<not> isLineTerminator c" if "c \<in> set xs" for c
  proof -
    from assms that have "isRadixDigit 16 c" by (simp add: isHexDigits_def list_all_iff)
    then show ?thesis by (simp add: hex_facts)
  qed
  have p: "\<not> isWhiteSpace CHR ''0''" "\<not> isWhiteSpace CHR ''X''"
    "\<not> isLineTerminator CHR ''0''" "\<not> isLineTerminator CHR ''X''"
    by (simp_all add: isWhiteSpace_def isLineTerminator_def)
  show "\<forall>c \<in> set (''0X'' @ xs). \<not> isWhiteSpace c" using x p by auto
  show "\<forall>c \<in> set (''0X'' @ xs). \<not> isLineTerminator c" using x p by auto
qed

lemma rx_at_wsRe:
  "rx_at wsRe p s =
     (if s \<noteq> [] \<and> isWhiteSpace (hd s) then Some (length (takeWhile isWhiteSpace s), []) else None)"
proof (cases "s \<noteq> [] \<and> isWhiteSpace (hd s)")
  case True
  then obtain c cs where s: "s = c # cs" and c: "isWhiteSpace c" by (cases s) auto
  let ?n = "length (takeWhile isWhiteSpace s)"
  have n: "?n = Suc (length (takeWhile isWhiteSpace cs))" using s c by simp
  have le: "?n \<le> length s" by (rule length_takeWhile_le)
  have cm: "cls_mem False Space = isWhiteSpace" by (rule ext) simp
  have "rev [1..<Suc ?n] = ?n # rev [1..<?n]" using n by simp
  then have "rxm False False (Rep 1 None Space) (p, s, []) =
      advance (p, s, []) ?n # map (advance (p, s, [])) (rev [1..<?n])"
    by (simp add: cm del: upt_Suc)
  then have "rx_at wsRe p s = Some (length s - length (drop ?n s), [])"
    by (simp add: rx_at_def wsRe_def Plus_def advance_def)
  then show ?thesis using True le by simp
next
  case False
  have cm: "cls_mem False Space = isWhiteSpace" by (rule ext) simp
  from False have "length (takeWhile isWhiteSpace s) = 0" by (cases s) auto
  then have "rxm False False (Rep 1 None Space) (p, s, []) = []"
    by (simp add: cm)
  then show ?thesis using False by (simp add: rx_at_def wsRe_def Plus_def)
qed

lemma wsplit_True: "wsplit True cur cs = wsplit False cur (dropWhile isWhiteSpace cs)"
  by (induction cs) auto

lemma rx_split_wsplit: "rx_split wsRe p cur s = wsplit False cur s"
proof (induction s arbitrary: p cur rule: length_induct)
  case (1 s)
  show ?case
  proof (cases s)
    case Nil
    then show ?thesis by simp
  next
    case (Cons c cs)
    show ?thesis
    proof (cases "isWhiteSpace c")
      case False
      have "length cs < length s" using Cons by simp
      then have "rx_split wsRe (Some c) (cur @ [c]) cs = wsplit False (cur @ [c]) cs"
        using 1 by blast
      then show ?thesis using Cons False by (simp add: rx_at_wsRe)
    next
      case True
      let ?n = "length (takeWhile isWhiteSpace (c # cs))"
      have n: "?n = Suc (length (takeWhile isWhiteSpace cs))" using True by simp
      have d: "drop ?n (c # cs) = dropWhile isWhiteSpace cs"
        using True by (simp add: dropWhile_eq_drop)
      have "length (dropWhile isWhiteSpace cs) < length s"
        using Cons length_dropWhile_le [of isWhiteSpace cs] by simp
      then have ih: "\<And>q. rx_split wsRe q [] (dropWhile isWhiteSpace cs)
          = wsplit False [] (dropWhile isWhiteSpace cs)"
        using 1 by blast
      have "rx_split wsRe p cur (c # cs) =
          cur # rx_split wsRe (Some ((c # cs) ! (?n - 1))) [] (drop ?n (c # cs))"
        using True n by (simp add: rx_at_wsRe del: takeWhile.simps drop_Suc_Cons nth_Cons_Suc)
      also have "\<dots> = cur # wsplit False [] (dropWhile isWhiteSpace cs)"
        unfolding d by (simp add: ih)
      also have "\<dots> = wsplit False cur (c # cs)"
        using True by (simp add: wsplit_True)
      finally show ?thesis using Cons by simp
    qed
  qed
qed

lemma wsplit_nonempty: "wsplit b cur s \<noteq> []"
  by (induction s arbitrary: b cur) auto

lemma wsplit_token:
  "tok \<noteq> [] \<Longrightarrow> \<forall>c \<in> set tok. \<not> isWhiteSpace c \<Longrightarrow> wsplit b cur (tok @ s) = wsplit False (cur @ tok) s"
proof (induction tok arbitrary: b cur)
  case Nil
  then show ?case by simp
next
  case (Cons c cs)
  show ?case
  proof (cases "cs = []")
    case True
    with Cons.prems show ?thesis by simp
  next
    case False
    with Cons.prems Cons.IH [of False "cur @ [c]"] show ?thesis by simp
  qed
qed

lemma wsplit_cur: "wsplit False cur s = (cur @ hd (wsplit False [] s)) # tl (wsplit False [] s)"
proof (induction s arbitrary: cur)
  case Nil
  then show ?case by simp
next
  case (Cons c cs)
  show ?case
  proof (cases "isWhiteSpace c")
    case True
    then show ?thesis by simp
  next
    case False
    have "wsplit False (cur @ [c]) cs = ((cur @ [c]) @ hd (wsplit False [] cs)) # tl (wsplit False [] cs)"
      by (rule Cons.IH)
    moreover have "wsplit False [c] cs = ([c] @ hd (wsplit False [] cs)) # tl (wsplit False [] cs)"
      using Cons.IH [of "[c]"] by simp
    ultimately show ?thesis using False by simp
  qed
qed

lemma wsplit_hd_ws: "s = [] \<or> isWhiteSpace (hd s) \<Longrightarrow> hd (wsplit False [] s) = []"
  by (cases s) auto

lemma wsplit_before:
  assumes "l1 \<noteq> []" "isWhiteSpace (last l1)" "s = [] \<or> \<not> isWhiteSpace (hd s)" "b \<longrightarrow> cur = []"
  shows "wsplit b cur (l1 @ s) = butlast (wsplit b cur l1) @ wsplit False [] s
     \<and> last (wsplit b cur l1) = []"
  using assms
proof (induction l1 arbitrary: b cur)
  case Nil
  then show ?case by simp
next
  case (Cons c cs)
  have start: "wsplit True [] s = wsplit False [] s"
    using Cons.prems(3) by (cases s) auto
  show ?case
  proof (cases "cs = []")
    case True
    with Cons.prems have c: "isWhiteSpace c" by simp
    show ?thesis using True c Cons.prems(4) start by (cases b) auto
  next
    case False
    then have l: "isWhiteSpace (last cs)" using Cons.prems(2) by simp
    show ?thesis
    proof (cases "isWhiteSpace c")
      case True
      have ih: "wsplit True [] (cs @ s) = butlast (wsplit True [] cs) @ wsplit False [] s
          \<and> last (wsplit True [] cs) = []"
        using False l Cons.prems(3) by (intro Cons.IH) auto
      show ?thesis
      proof (cases b)
        case True
        with Cons.prems(4) have "cur = []" by simp
        with True \<open>isWhiteSpace c\<close> ih show ?thesis by simp
      next
        case False
        with \<open>isWhiteSpace c\<close> ih show ?thesis by (simp add: wsplit_nonempty)
      qed
    next
      case nws: False
      have ih: "wsplit False (cur @ [c]) (cs @ s) = butlast (wsplit False (cur @ [c]) cs) @ wsplit False [] s
          \<and> last (wsplit False (cur @ [c]) cs) = []"
        using False l Cons.prems(3) by (intro Cons.IH) auto
      with nws show ?thesis by simp
    qed
  qed
qed

lemma split_around_token:
  assumes "l1 = [] \<or> isWhiteSpace (last l1)" "l2 = [] \<or> isWhiteSpace (hd l2)"
    and "tok \<noteq> []" "\<forall>c \<in> set tok. \<not> isWhiteSpace c"
  shows "rx_split wsRe None [] (l1 @ tok @ l2) =
     butlast (rx_split wsRe None [] l1) @ [tok] @ tl (rx_split wsRe None [] l2)"
    and "last (rx_split wsRe None [] l1) = []" and "hd (rx_split wsRe None [] l2) = []"
proof -
  have t: "wsplit False [] (tok @ l2) = tok # tl (wsplit False [] l2)"
  proof -
    have "wsplit False [] (tok @ l2) = wsplit False tok l2"
      using wsplit_token [OF assms(3,4), of False "[]" l2] by simp
    also have "\<dots> = (tok @ hd (wsplit False [] l2)) # tl (wsplit False [] l2)"
      by (rule wsplit_cur)
    finally show ?thesis using wsplit_hd_ws [OF assms(2)] by simp
  qed
  have s: "tok @ l2 = [] \<or> \<not> isWhiteSpace (hd (tok @ l2))"
    using assms(3,4) by (cases tok) auto
  show "rx_split wsRe None [] (l1 @ tok @ l2) =
     butlast (rx_split wsRe None [] l1) @ [tok] @ tl (rx_split wsRe None [] l2)"
  proof (cases "l1 = []")
    case True
    then show ?thesis using t by (simp add: rx_split_wsplit)
  next
    case False
    with assms(1) have "isWhiteSpace (last l1)" by simp
    from wsplit_before [OF False this s, of False "[]"] t
    show ?thesis by (simp add: rx_split_wsplit)
  qed
  show "last (rx_split wsRe None [] l1) = []"
  proof (cases "l1 = []")
    case True
    then show ?thesis by (simp add: rx_split_wsplit)
  next
    case False
    with assms(1) have "isWhiteSpace (last l1)" by simp
    from wsplit_before [OF False this s, of False "[]"]
    show ?thesis by (simp add: rx_split_wsplit)
  qed
  show "hd (rx_split wsRe None [] l2) = []"
    using wsplit_hd_ws [OF assms(2)] by (simp add: rx_split_wsplit)
qed

lemma encodingLoop_append:
  "encodingLoop acc (xs @ ys) = encodingLoop (encodingLoop acc xs) ys"
proof (induction xs arbitrary: acc)
  case Nil
  then show ?case by simp
next
  case (Cons x xs)
  obtain ops enc where "acc = (ops, enc)" by (cases acc) auto
  then show ?case using Cons by (simp split: option.splits)
qed

lemma encodingLoop_acc:
  "encodingLoop (ops, enc) xs =
     (ops @ fst (encodingLoop ([], []) xs), enc @ snd (encodingLoop ([], []) xs))"
proof (induction xs arbitrary: ops enc)
  case Nil
  then show ?case by simp
next
  case (Cons x xs)
  note ih = Cons.IH
  show ?case
  proof (cases "x \<in> set KNOWN_OPERANDS")
    case True
    then show ?thesis using ih [of "ops @ [x]" enc] ih [of "[x]" "[]"] by simp
  next
    case False
    show ?thesis
    proof (cases "rx_match rangeRe x")
      case (Some g)
      let ?f = "\<lparr>high = parseInt (grp g 1) None, low = parseInt (grp g 2) None, bvalue = fieldValue (grp g 3)\<rparr>"
      show ?thesis using False Some ih [of ops "enc @ [?f]"] ih [of "[]" "[?f]"] by simp
    next
      case None
      note n = None
      show ?thesis
      proof (cases "rx_match singleRe x")
        case (Some g)
        let ?f = "\<lparr>high = parseInt (grp g 1) None, low = parseInt (grp g 1) None, bvalue = fieldValue (grp g 2)\<rparr>"
        show ?thesis using False n Some ih [of ops "enc @ [?f]"] ih [of "[]" "[?f]"] by simp
      next
        case None
        then show ?thesis using False n ih [of ops enc] by simp
      qed
    qed
  qed
qed

lemma empty_part_matches: "rx_match rangeRe [] = None" "rx_match singleRe [] = None"
  by code_simp+

lemma empty_part: "encodingLoop acc [[]] = acc"
proof -
  obtain ops enc where a: "acc = (ops, enc)" by (cases acc) auto
  have "[] \<notin> set KNOWN_OPERANDS" by (simp add: KNOWN_OPERANDS_def)
  then show ?thesis unfolding a by (simp add: empty_part_matches)
qed

lemma token_in_line:
  assumes "l1 = [] \<or> isWhiteSpace (last l1)" "l2 = [] \<or> isWhiteSpace (hd l2)"
    and "tok \<noteq> []" "\<forall>c \<in> set tok. \<not> isWhiteSpace c"
    and step: "\<And>ops enc. encodingLoop (ops, enc) [tok] = (ops @ o1, enc @ f1)"
  shows "parseEncodingLine (l1 @ tok @ l2) =
     (fst (parseEncodingLine l1) @ o1 @ fst (parseEncodingLine l2),
      snd (parseEncodingLine l1) @ f1 @ snd (parseEncodingLine l2))"
proof -
  let ?S1 = "rx_split wsRe None [] l1" and ?S2 = "rx_split wsRe None [] l2"
  note sp = split_around_token [OF assms(1-4)]
  have ne1: "?S1 \<noteq> []" and ne2: "?S2 \<noteq> []" by (simp_all add: rx_split_wsplit wsplit_nonempty)
  have s1: "?S1 = butlast ?S1 @ [[]]"
    using ne1 sp(2) by (metis append_butlast_last_id)
  have s2: "?S2 = [] # tl ?S2"
    using ne2 sp(3) by (metis list.collapse)
  have a: "parseEncodingLine l1 = encodingLoop ([], []) (butlast ?S1)"
  proof -
    have "parseEncodingLine l1 = encodingLoop ([], []) (butlast ?S1 @ [[]])"
      unfolding parseEncodingLine_def using s1 by simp
    then show ?thesis by (simp add: encodingLoop_append empty_part)
  qed
  have b: "parseEncodingLine l2 = encodingLoop ([], []) (tl ?S2)"
  proof -
    have "parseEncodingLine l2 = encodingLoop ([], []) ([[]] @ tl ?S2)"
      unfolding parseEncodingLine_def using s2 by simp
    then show ?thesis by (simp only: encodingLoop_append empty_part)
  qed
  obtain oa ea where A: "encodingLoop ([], []) (butlast ?S1) = (oa, ea)"
    by (cases "encodingLoop ([], []) (butlast ?S1)") auto
  have "parseEncodingLine (l1 @ tok @ l2) =
      encodingLoop (encodingLoop (encodingLoop ([], []) (butlast ?S1)) [tok]) (tl ?S2)"
    unfolding parseEncodingLine_def sp(1) by (simp only: encodingLoop_append)
  also have "\<dots> = encodingLoop (oa @ o1, ea @ f1) (tl ?S2)"
    unfolding A by (simp only: step)
  also have "\<dots> = ((oa @ o1) @ fst (encodingLoop ([], []) (tl ?S2)),
      (ea @ f1) @ snd (encodingLoop ([], []) (tl ?S2)))"
    by (rule encodingLoop_acc)
  finally show ?thesis unfolding a b A by simp
qed

lemma range_step:
  assumes "isDecLiteral hs" "isDecLiteral ls" "v \<noteq> []"
    "\<forall>c \<in> set v. \<not> isLineTerminator c"
  shows "encodingLoop (ops, enc) [hs @ ''..'' @ ls @ ''='' @ v] =
     (ops @ [], enc @ [\<lparr>high = Num (int (positional 10 hs)), low = Num (int (positional 10 ls)),
            bvalue = fieldValue v\<rparr>])"
proof -
  let ?tok = "hs @ ''..'' @ ls @ ''='' @ v"
  have eq: "CHR ''='' \<in> set ?tok" by simp
  have no: "?tok \<notin> set KNOWN_OPERANDS" using eq by (rule not_operand)
  have m: "rx_match rangeRe ?tok = Some [hs, ls, v]"
    using assms(1-4) by (rule range_match)
  have "encodingLoop (ops, enc) [?tok] =
      (ops, enc @ [\<lparr>high = parseInt (grp [hs, ls, v] 1) None, low = parseInt (grp [hs, ls, v] 2) None,
                     bvalue = fieldValue (grp [hs, ls, v] 3)\<rparr>])"
    using no by (simp only: encodingLoop.simps m if_False option.case)
  then show ?thesis
    by (simp add: grp_def parseInt_dec [OF assms(1)] parseInt_dec [OF assms(2)])
qed

lemma single_step:
  assumes "isDecLiteral bs" "v \<noteq> []" "\<forall>c \<in> set v. \<not> isLineTerminator c"
  shows "encodingLoop (ops, enc) [bs @ ''='' @ v] =
     (ops @ [], enc @ [\<lparr>high = Num (int (positional 10 bs)), low = Num (int (positional 10 bs)),
            bvalue = fieldValue v\<rparr>])"
proof -
  let ?tok = "bs @ ''='' @ v"
  have eq: "CHR ''='' \<in> set ?tok" by simp
  have no: "?tok \<notin> set KNOWN_OPERANDS" using eq by (rule not_operand)
  have n: "rx_match rangeRe ?tok = None" using assms(1) by (rule range_no_match_single)
  have m: "rx_match singleRe ?tok = Some [bs, v]" using assms(1-3) by (rule single_match)
  have "encodingLoop (ops, enc) [?tok] =
      (ops, enc @ [\<lparr>high = parseInt (grp [bs, v] 1) None, low = parseInt (grp [bs, v] 1) None,
                     bvalue = fieldValue (grp [bs, v] 2)\<rparr>])"
    using no by (simp only: encodingLoop.simps n m if_False option.case)
  then show ?thesis
    by (simp add: grp_def parseInt_dec [OF assms(1)])
qed

lemma range_in_line:
  assumes "l1 = [] \<or> isWhiteSpace (last l1)" "l2 = [] \<or> isWhiteSpace (hd l2)"
    and "isDecLiteral hs" "isDecLiteral ls" "v \<noteq> []"
    "\<forall>c \<in> set v. \<not> isLineTerminator c" "\<forall>c \<in> set v. \<not> isWhiteSpace c"
  shows "parseEncodingLine (l1 @ (hs @ ''..'' @ ls @ ''='' @ v) @ l2) =
     (fst (parseEncodingLine l1) @ fst (parseEncodingLine l2),
      snd (parseEncodingLine l1) @
        [\<lparr>high = Num (int (positional 10 hs)), low = Num (int (positional 10 ls)), bvalue = fieldValue v\<rparr>] @
      snd (parseEncodingLine l2))"
proof -
  let ?tok = "hs @ ''..'' @ ls @ ''='' @ v"
  have ws: "\<forall>c \<in> set ?tok. \<not> isWhiteSpace c"
    using dec_chars(3) [OF assms(3)] dec_chars(3) [OF assms(4)] assms(7) punct_not_ws
    by (simp add: ball_Un)
  have ne: "?tok \<noteq> []" by simp
  from token_in_line [OF assms(1,2) ne ws range_step [OF assms(3-6)]]
  show ?thesis by simp
qed

lemma single_in_line:
  assumes "l1 = [] \<or> isWhiteSpace (last l1)" "l2 = [] \<or> isWhiteSpace (hd l2)"
    and "isDecLiteral bs" "v \<noteq> []"
    "\<forall>c \<in> set v. \<not> isLineTerminator c" "\<forall>c \<in> set v. \<not> isWhiteSpace c"
  shows "parseEncodingLine (l1 @ (bs @ ''='' @ v) @ l2) =
     (fst (parseEncodingLine l1) @ fst (parseEncodingLine l2),
      snd (parseEncodingLine l1) @
        [\<lparr>high = Num (int (positional 10 bs)), low = Num (int (positional 10 bs)), bvalue = fieldValue v\<rparr>] @
      snd (parseEncodingLine l2))"
proof -
  let ?tok = "bs @ ''='' @ v"
  have ws: "\<forall>c \<in> set ?tok. \<not> isWhiteSpace c"
    using dec_chars(3) [OF assms(3)] assms(6) punct_not_ws by (simp add: ball_Un)
  have ne: "?tok \<noteq> []" by simp
  from token_in_line [OF assms(1,2) ne ws single_step [OF assms(3-5)]]
  show ?thesis by simp
qed

text \<open>
  Claim C4.  Take a line in which a token stands between white space, or at an end of the
  line: \<open>l1\<close> is the text before the token, empty or ending in white space, and \<open>l2\<close>
  the text after it, empty or starting with white space.  A token made of a decimal
  literal, two dots, a decimal literal, an equals sign and a value contributes exactly one
  bit-field and no operand, between what \<open>l1\<close> and what \<open>l2\<close> contribute: \<open>high\<close>
  and \<open>low\<close> are the numbers of the two literals, and the value is read in base 16 when
  it is \<open>0x\<close> (or \<open>0X\<close>, which \<open>parseInt\<close> detects itself) followed by hexadecimal
  digits and in base 10 when it is a decimal literal.  A token with a single decimal
  literal before the equals sign contributes one bit-field with \<open>high = low\<close>.  The
  numbers are below \<open>2^53\<close>, where a JavaScript number is exact; no order between
  \<open>high\<close> and \<open>low\<close> is needed, the grammar validates nothing.  With \<open>l1\<close> and \<open>l2\<close>
  empty the line is the token alone and the result is the one bit-field.
\<close>

theorem bit_range_token:
  assumes "l1 = [] \<or> isWhiteSpace (last l1)" "l2 = [] \<or> isWhiteSpace (hd l2)"
    and "isDecLiteral hs" "isDecLiteral ls" "isDecLiteral ds" "isHexDigits xs"
    and "positional 10 hs < 2 ^ 53" "positional 10 ls < 2 ^ 53"
    and "positional 10 ds < 2 ^ 53" "positional 16 xs < 2 ^ 53"
  shows
    "parseEncodingLine (l1 @ (hs @ ''..'' @ ls @ ''='' @ ds) @ l2) =
       (fst (parseEncodingLine l1) @ fst (parseEncodingLine l2),
        snd (parseEncodingLine l1) @
          [\<lparr>high = Num (int (positional 10 hs)), low = Num (int (positional 10 ls)),
            bvalue = Num (int (positional 10 ds))\<rparr>] @
        snd (parseEncodingLine l2))
     \<and> parseEncodingLine (l1 @ (hs @ ''..'' @ ls @ ''='' @ ''0x'' @ xs) @ l2) =
       (fst (parseEncodingLine l1) @ fst (parseEncodingLine l2),
        snd (parseEncodingLine l1) @
          [\<lparr>high = Num (int (positional 10 hs)), low = Num (int (positional 10 ls)),
            bvalue = Num (int (positional 16 xs))\<rparr>] @
        snd (parseEncodingLine l2))
     \<and> parseEncodingLine (l1 @ (hs @ ''..'' @ ls @ ''='' @ ''0X'' @ xs) @ l2) =
       (fst (parseEncodingLine l1) @ fst (parseEncodingLine l2),
        snd (parseEncodingLine l1) @
          [\<lparr>high = Num (int (positional 10 hs)), low = Num (int (positional 10 ls)),
            bvalue = Num (int (positional 16 xs))\<rparr>] @
        snd (parseEncodingLine l2))
     \<and> parseEncodingLine (l1 @ (hs @ ''='' @ ds) @ l2) =
       (fst (parseEncodingLine l1) @ fst (parseEncodingLine l2),
        snd (parseEncodingLine l1) @
          [\<lparr>high = Num (int (positional 10 hs)), low = Num (int (positional 10 hs)),
            bvalue = Num (int (positional 10 ds))\<rparr>] @
        snd (parseEncodingLine l2))
     \<and> parseEncodingLine (l1 @ (hs @ ''='' @ ''0x'' @ xs) @ l2) =
       (fst (parseEncodingLine l1) @ fst (parseEncodingLine l2),
        snd (parseEncodingLine l1) @
          [\<lparr>high = Num (int (positional 10 hs)), low = Num (int (positional 10 hs)),
            bvalue = Num (int (positional 16 xs))\<rparr>] @
        snd (parseEncodingLine l2))
     \<and> parseEncodingLine (l1 @ (hs @ ''='' @ ''0X'' @ xs) @ l2) =
       (fst (parseEncodingLine l1) @ fst (parseEncodingLine l2),
        snd (parseEncodingLine l1) @
          [\<lparr>high = Num (int (positional 10 hs)), low = Num (int (positional 10 hs)),
            bvalue = Num (int (positional 16 xs))\<rparr>] @
        snd (parseEncodingLine l2))
     \<and> parseEncodingLine [] = ([], [])"
proof -
  note d = dec_chars [OF assms(5)]
  note x = hex_chars [OF assms(6)]
  note u = hex_chars_upper [OF assms(6)]
  have xne: "''0x'' @ xs \<noteq> []" and une: "''0X'' @ xs \<noteq> []" by simp_all
  have a1: "parseEncodingLine (l1 @ (hs @ ''..'' @ ls @ ''='' @ ds) @ l2) =
       (fst (parseEncodingLine l1) @ fst (parseEncodingLine l2),
        snd (parseEncodingLine l1) @
          [\<lparr>high = Num (int (positional 10 hs)), low = Num (int (positional 10 ls)),
            bvalue = Num (int (positional 10 ds))\<rparr>] @
        snd (parseEncodingLine l2))"
    using range_in_line [OF assms(1,2,3,4) d(1) d(4) d(3)]
    by (simp only: fieldValue_dec [OF assms(5)])
  have a2: "parseEncodingLine (l1 @ (hs @ ''..'' @ ls @ ''='' @ ''0x'' @ xs) @ l2) =
       (fst (parseEncodingLine l1) @ fst (parseEncodingLine l2),
        snd (parseEncodingLine l1) @
          [\<lparr>high = Num (int (positional 10 hs)), low = Num (int (positional 10 ls)),
            bvalue = Num (int (positional 16 xs))\<rparr>] @
        snd (parseEncodingLine l2))"
    using range_in_line [OF assms(1,2,3,4) xne x(2) x(1)]
    by (simp only: fieldValue_hex [OF assms(6)])
  have a3: "parseEncodingLine (l1 @ (hs @ ''..'' @ ls @ ''='' @ ''0X'' @ xs) @ l2) =
       (fst (parseEncodingLine l1) @ fst (parseEncodingLine l2),
        snd (parseEncodingLine l1) @
          [\<lparr>high = Num (int (positional 10 hs)), low = Num (int (positional 10 ls)),
            bvalue = Num (int (positional 16 xs))\<rparr>] @
        snd (parseEncodingLine l2))"
    using range_in_line [OF assms(1,2,3,4) une u(2) u(1)]
    by (simp only: fieldValue_hex_upper [OF assms(6)])
  have a4: "parseEncodingLine (l1 @ (hs @ ''='' @ ds) @ l2) =
       (fst (parseEncodingLine l1) @ fst (parseEncodingLine l2),
        snd (parseEncodingLine l1) @
          [\<lparr>high = Num (int (positional 10 hs)), low = Num (int (positional 10 hs)),
            bvalue = Num (int (positional 10 ds))\<rparr>] @
        snd (parseEncodingLine l2))"
    using single_in_line [OF assms(1,2,3) d(1) d(4) d(3)]
    by (simp only: fieldValue_dec [OF assms(5)])
  have a5: "parseEncodingLine (l1 @ (hs @ ''='' @ ''0x'' @ xs) @ l2) =
       (fst (parseEncodingLine l1) @ fst (parseEncodingLine l2),
        snd (parseEncodingLine l1) @
          [\<lparr>high = Num (int (positional 10 hs)), low = Num (int (positional 10 hs)),
            bvalue = Num (int (positional 16 xs))\<rparr>] @
        snd (parseEncodingLine l2))"
    using single_in_line [OF assms(1,2,3) xne x(2) x(1)]
    by (simp only: fieldValue_hex [OF assms(6)])
  have a6: "parseEncodingLine (l1 @ (hs @ ''='' @ ''0X'' @ xs) @ l2) =
       (fst (parseEncodingLine l1) @ fst (parseEncodingLine l2),
        snd (parseEncodingLine l1) @
          [\<lparr>high = Num (int (positional 10 hs)), low = Num (int (positional 10 hs)),
            bvalue = Num (int (positional 16 xs))\<rparr>] @
        snd (parseEncodingLine l2))"
    using single_in_line [OF assms(1,2,3) une u(2) u(1)]
    by (simp only: fieldValue_hex_upper [OF assms(6)])
  have a7: "parseEncodingLine [] = ([], [])"
    unfolding parseEncodingLine_def by (simp add: empty_part)
  from a1 a2 a3 a4 a5 a6 a7 show ?thesis by blast
qed

lemma wit_literals:
  "isDecLiteral ''31''" "isDecLiteral ''25''" "isDecLiteral ''3''" "isHexDigits ''0C''"
  by code_simp+

lemma wit_values:
  "positional 10 ''31'' = 31" "positional 10 ''25'' = 25" "positional 10 ''3'' = 3"
  "positional 16 ''0C'' = 12"
  by code_simp+

lemma wit_context:
  "isWhiteSpace (last ''rd rs1 '')" "isWhiteSpace (hd '' 6..2=0x0C'')"
  "parseEncodingLine ''rd rs1 '' = ([''rd'', ''rs1''], [])"
  "parseEncodingLine '' 6..2=0x0C'' = ([], [\<lparr>high = Num 6, low = Num 2, bvalue = Num 12\<rparr>])"
  by code_simp+

theorem bit_range_token_witness:
  "isWhiteSpace (last ''rd rs1 '') \<and> isWhiteSpace (hd '' 6..2=0x0C'')
   \<and> isDecLiteral ''31'' \<and> isDecLiteral ''25'' \<and> isDecLiteral ''3'' \<and> isHexDigits ''0C''
   \<and> parseEncodingLine ''rd rs1 31..25=3 6..2=0x0C'' =
       ([''rd'', ''rs1''], [\<lparr>high = Num 31, low = Num 25, bvalue = Num 3\<rparr>,
                             \<lparr>high = Num 6, low = Num 2, bvalue = Num 12\<rparr>])
   \<and> parseEncodingLine ''rd rs1 31..25=0x0C 6..2=0x0C'' =
       ([''rd'', ''rs1''], [\<lparr>high = Num 31, low = Num 25, bvalue = Num 12\<rparr>,
                             \<lparr>high = Num 6, low = Num 2, bvalue = Num 12\<rparr>])
   \<and> parseEncodingLine ''rd rs1 31=3 6..2=0x0C'' =
       ([''rd'', ''rs1''], [\<lparr>high = Num 31, low = Num 31, bvalue = Num 3\<rparr>,
                             \<lparr>high = Num 6, low = Num 2, bvalue = Num 12\<rparr>])
   \<and> parseEncodingLine ''rd rs1 31=0x0C 6..2=0x0C'' =
       ([''rd'', ''rs1''], [\<lparr>high = Num 31, low = Num 31, bvalue = Num 12\<rparr>,
                             \<lparr>high = Num 6, low = Num 2, bvalue = Num 12\<rparr>])"
proof -
  have b: "positional 10 ''31'' < 2 ^ 53" "positional 10 ''25'' < 2 ^ 53"
    "positional 10 ''3'' < 2 ^ 53" "positional 16 ''0C'' < 2 ^ 53"
    by (simp_all only: wit_values) simp_all
  have c: "''rd rs1 '' = [] \<or> isWhiteSpace (last ''rd rs1 '')"
    "'' 6..2=0x0C'' = [] \<or> isWhiteSpace (hd '' 6..2=0x0C'')"
    using wit_context(1,2) by blast+
  show ?thesis
    using bit_range_token [OF c wit_literals b] wit_literals wit_context(1,2)
    by (simp add: wit_values wit_context(3,4))
qed

section \<open>Register-table parser\<close>

lemma rxm_Seq_mem:
  "st' \<in> set (rxm ic ml (Seq a b) st) \<Longrightarrow> \<exists>s1 \<in> set (rxm ic ml a st). st' \<in> set (rxm ic ml b s1)"
  by simp

lemma rxm_caps_extend:
  "st' \<in> set (rxm ic ml e st) \<Longrightarrow> \<exists>ext. snd (snd st') = snd (snd st) @ ext"
proof (induction e arbitrary: st st')
  case (One k)
  then show ?case by (cases st) (auto split: list.splits if_splits)
next
  case (Lit l)
  then show ?case by (cases st) (auto simp: advance_def split: if_splits)
next
  case (Seq a b)
  from Seq.prems obtain s1 where s1: "s1 \<in> set (rxm ic ml a st)" and s2: "st' \<in> set (rxm ic ml b s1)"
    by auto
  from Seq.IH(1) [OF s1] obtain e1 where "snd (snd s1) = snd (snd st) @ e1" by blast
  moreover from Seq.IH(2) [OF s2] obtain e2 where "snd (snd st') = snd (snd s1) @ e2" by blast
  ultimately have "snd (snd st') = snd (snd st) @ (e1 @ e2)" by simp
  then show ?case by blast
next
  case (Alt a b)
  from Alt.prems have "st' \<in> set (rxm ic ml a st) \<or> st' \<in> set (rxm ic ml b st)" by simp
  then show ?case using Alt.IH by blast
next
  case (Opt a)
  from Opt.prems have "st' \<in> set (rxm ic ml a st) \<or> st' = st" by auto
  then show ?case
  proof
    assume "st' \<in> set (rxm ic ml a st)"
    then show ?thesis by (rule Opt.IH)
  next
    assume "st' = st"
    then have "snd (snd st') = snd (snd st) @ []" by simp
    then show ?thesis by blast
  qed
next
  case (Rep lo hi k)
  then show ?case by (cases st) (auto simp: advance_def)
next
  case (Grp a)
  obtain p r g where st: "st = (p, r, g)" by (cases st) auto
  with Grp.prems obtain s1 where s1: "s1 \<in> set (rxm ic ml a (p, r, g))"
    and e: "st' = (fst s1, fst (snd s1), snd (snd s1) @ [take (length r - length (fst (snd s1))) r])"
    by (auto split: prod.splits)
  from Grp.IH [OF s1] obtain e1 where "snd (snd s1) = g @ e1" by auto
  with e st have "snd (snd st') = snd (snd st) @ (e1 @ [take (length r - length (fst (snd s1))) r])"
    by simp
  then show ?case by blast
next
  case Bol
  then show ?case by (cases st) (auto split: option.splits if_splits)
next
  case Eol
  then show ?case by (cases st) (auto split: list.splits if_splits)
qed

text \<open>The digits of a CSR address: \<open>[0-9A-Fa-f]\<close>.\<close>

lemma hex_class:
  "cls_mem False (AnyOf [Range CHR ''0'' CHR ''9'', Range CHR ''A'' CHR ''F'', Range CHR ''a'' CHR ''f'']) c
     \<Longrightarrow> isRadixDigit 16 c"
  by (auto simp: isRadixDigit_def digitVal_def isDigit_def isLower_def isUpper_def less_eq_char_def)

lemma lit_ok_prefix: "lit_ok False l r \<Longrightarrow> r = l @ drop (length l) r"
proof -
  assume "lit_ok False l r"
  then have "list_all2 (=) l (take (length l) r)" by (simp add: lit_ok_def)
  then have "take (length l) r = l" by (simp add: list_all2_eq [symmetric])
  then show ?thesis by (metis append_take_drop_id)
qed

lemma address_group:
  assumes "s2 \<in> set (rxm False False
      (Grp (Seq (Lit ''0x'')
         (Plus (AnyOf [Range CHR ''0'' CHR ''9'', Range CHR ''A'' CHR ''F'', Range CHR ''a'' CHR ''f'']))))
      (p, r, []))"
  shows "\<exists>hs. isHexDigits hs \<and> snd (snd s2) = [''0x'' @ hs]"
proof -
  let ?H = "AnyOf [Range CHR ''0'' CHR ''9'', Range CHR ''A'' CHR ''F'', Range CHR ''a'' CHR ''f'']"
  from assms have ok: "lit_ok False ''0x'' r"
    by (auto split: if_splits)
  then obtain r1 where r: "r = ''0x'' @ r1" using lit_ok_prefix [of "''0x''" r] by auto
  let ?n = "length (takeWhile (cls_mem False ?H) r1)"
  from assms ok r obtain j where j: "1 \<le> j" "j \<le> ?n"
    and s2: "s2 = (if j = 0 then Some CHR ''x'' else Some (r1 ! (j - 1)), drop j r1,
                   [take (length r - length (drop j r1)) r])"
    by (auto simp: advance_def Plus_def simp del: upt_Suc cls_mem.simps)
  have jl: "j \<le> length r1" using j(2) length_takeWhile_le [of "cls_mem False ?H" r1] by simp
  then have t: "take (length r - length (drop j r1)) r = ''0x'' @ take j r1"
    using r by simp
  have "take j r1 = take j (takeWhile (cls_mem False ?H) r1)"
    using j(2) by (metis takeWhile_dropWhile_id take_append diff_is_0_eq' take_0 append_Nil2)
  then have "\<forall>c \<in> set (take j r1). cls_mem False ?H c"
    by (metis in_set_takeD set_takeWhileD)
  then have "\<forall>c \<in> set (take j r1). isRadixDigit 16 c" using hex_class by blast
  moreover have "take j r1 \<noteq> []" using j(1) jl by (cases r1) auto
  ultimately have "isHexDigits (take j r1)" by (simp add: isHexDigits_def list_all_iff)
  then show ?thesis using s2 t by auto
qed

lemma csvRe_groups:
  assumes "rx_match csvRe s = Some g"
  shows "\<exists>hs. isHexDigits hs \<and> grp g 1 = ''0x'' @ hs"
proof -
  let ?G = "Grp (Seq (Lit ''0x'')
         (Plus (AnyOf [Range CHR ''0'' CHR ''9'', Range CHR ''A'' CHR ''F'', Range CHR ''a'' CHR ''f''])))"
  let ?T = "Seq (Lit '','') (Seq (Star Space) (Seq (Lit [CHR 0x22])
      (Seq (Grp (Plus (NoneOf [Chr (CHR 0x22)]))) (Lit [CHR 0x22]))))"
  have body: "csvRe = (False, False, Seq Bol (Seq ?G ?T))" by (simp add: csvRe_def)
  from assms obtain i n where "rx_exec csvRe None s = Some (i, n, g)"
    by (auto simp: rx_match_def split: option.splits)
  then have "\<exists>p r n. rx_at csvRe p r = Some (n, g)"
  proof (induction s arbitrary: i)
    case Nil
    then show ?case by (auto split: option.splits)
  next
    case (Cons c cs)
    then show ?case
      by (auto simp: body rx_exec_Bol_mid split: option.splits)
  qed
  then obtain p r n where "rx_at (False, False, Seq Bol (Seq ?G ?T)) p r = Some (n, g)"
    unfolding body by blast
  then have "\<exists>st'. st' \<in> set (rxm False False (Seq Bol (Seq ?G ?T)) (p, r, [])) \<and> snd (snd st') = g"
  proof (cases "rxm False False (Seq Bol (Seq ?G ?T)) (p, r, [])")
    case Nil
    assume "rx_at (False, False, Seq Bol (Seq ?G ?T)) p r = Some (n, g)"
    with Nil show ?thesis by (simp add: rx_at_def del: rxm.simps)
  next
    case (Cons x xs)
    assume "rx_at (False, False, Seq Bol (Seq ?G ?T)) p r = Some (n, g)"
    with Cons have "snd (snd x) = g"
      by (cases x) (simp add: rx_at_def del: rxm.simps)
    moreover have "x \<in> set (rxm False False (Seq Bol (Seq ?G ?T)) (p, r, []))"
      unfolding Cons by simp
    ultimately show ?thesis by blast
  qed
  then obtain st' where st': "st' \<in> set (rxm False False (Seq Bol (Seq ?G ?T)) (p, r, []))"
    and g: "snd (snd st') = g"
    by blast
  from rxm_Seq_mem [OF st'] obtain s1 where s1: "s1 \<in> set (rxm False False Bol (p, r, []))"
    and a: "st' \<in> set (rxm False False (Seq ?G ?T) s1)"
    by blast
  from s1 have s1e: "s1 = (p, r, [])" by (auto split: option.splits if_splits)
  from rxm_Seq_mem [OF a] obtain s2 where s2: "s2 \<in> set (rxm False False ?G (p, r, []))"
    and b: "st' \<in> set (rxm False False ?T s2)"
    unfolding s1e by blast
  from address_group [OF s2] obtain hs where hs: "isHexDigits hs" "snd (snd s2) = [''0x'' @ hs]"
    by blast
  from rxm_caps_extend [OF b] hs(2) g obtain ext where "g = [''0x'' @ hs] @ ext" by auto
  then have "grp g 1 = ''0x'' @ hs" by (simp add: grp_def)
  with hs(1) show ?thesis by blast
qed

lemma parseCSVLine_address:
  "c \<in> set (parseCSVLine line) \<Longrightarrow> \<exists>hs. isHexDigits hs \<and> address c = ''0x'' @ hs"
  using csvRe_groups
  by (auto simp: parseCSVLine_def split: if_splits option.splits)

lemma parseCSVLine_privilege:
  "c \<in> set (parseCSVLine line) \<Longrightarrow> privilege c = privilegeOf (parseInt (address c) (Some 16))"
  by (auto simp: parseCSVLine_def split: if_splits option.splits)

lemma privilegeOf_table:
  "privilegeOf (Num (int a)) =
     (if 0x100 \<le> a \<and> a \<le> 0x1FF then ''S''
      else if 0x200 \<le> a \<and> a \<le> 0x2FF then ''H''
      else if 0x300 \<le> a \<and> a \<le> 0x3FF then ''M''
      else if 0x500 \<le> a \<and> a \<le> 0x5FF then ''S''
      else if 0x600 \<le> a \<and> a \<le> 0x6FF then ''H''
      else if 0x700 \<le> a \<and> a \<le> 0x7FF then ''M''
      else if 0xB00 \<le> a \<and> a \<le> 0xBFF then ''M''
      else if 0xC00 \<le> a \<and> a \<le> 0xCFF then ''U''
      else if 0xF00 \<le> a then ''M''
      else ''U'')"
  by (simp add: privilegeOf_def num_ge_def num_lt_def)

text \<open>
  Claim C2.  Every record of \<open>parseCSVFile\<close> has an address that \<open>parseInt\<close> reads as
  a number \<open>a\<close> in base 16, and its privilege is the value of the fixed table at \<open>a\<close>:
  the ranges in the order of the table, the first match winning, and \<open>U\<close> outside all
  ranges.  The witness is the lines of scenarios B and C: 0x305 gives M and 0xC01 gives U.
\<close>

theorem privilege_table:
  "\<forall>c \<in> set (parseCSVFile content). \<exists>a.
     parseInt (address c) (Some 16) = Num (int a) \<and>
     privilege c =
      (if 0x100 \<le> a \<and> a \<le> 0x1FF then ''S''
       else if 0x200 \<le> a \<and> a \<le> 0x2FF then ''H''
       else if 0x300 \<le> a \<and> a \<le> 0x3FF then ''M''
       else if 0x500 \<le> a \<and> a \<le> 0x5FF then ''S''
       else if 0x600 \<le> a \<and> a \<le> 0x6FF then ''H''
       else if 0x700 \<le> a \<and> a \<le> 0x7FF then ''M''
       else if 0xB00 \<le> a \<and> a \<le> 0xBFF then ''M''
       else if 0xC00 \<le> a \<and> a \<le> 0xCFF then ''U''
       else if 0xF00 \<le> a then ''M''
       else ''U'')"
proof
  fix c
  assume "c \<in> set (parseCSVFile content)"
  then obtain line where l: "c \<in> set (parseCSVLine line)"
    by (auto simp: parseCSVFile_def)
  then obtain hs where hs: "isHexDigits hs" "address c = ''0x'' @ hs"
    using parseCSVLine_address by blast
  have a: "parseInt (address c) (Some 16) = Num (int (positional 16 hs))"
    unfolding hs(2) using hs(1) by (rule parseInt_hex)
  have "privilege c = privilegeOf (Num (int (positional 16 hs)))"
    using l a by (simp add: parseCSVLine_privilege)
  then have "privilege c =
      (if 0x100 \<le> positional 16 hs \<and> positional 16 hs \<le> 0x1FF then ''S''
       else if 0x200 \<le> positional 16 hs \<and> positional 16 hs \<le> 0x2FF then ''H''
       else if 0x300 \<le> positional 16 hs \<and> positional 16 hs \<le> 0x3FF then ''M''
       else if 0x500 \<le> positional 16 hs \<and> positional 16 hs \<le> 0x5FF then ''S''
       else if 0x600 \<le> positional 16 hs \<and> positional 16 hs \<le> 0x6FF then ''H''
       else if 0x700 \<le> positional 16 hs \<and> positional 16 hs \<le> 0x7FF then ''M''
       else if 0xB00 \<le> positional 16 hs \<and> positional 16 hs \<le> 0xBFF then ''M''
       else if 0xC00 \<le> positional 16 hs \<and> positional 16 hs \<le> 0xCFF then ''U''
       else if 0xF00 \<le> positional 16 hs then ''M''
       else ''U'')"
    by (simp only: privilegeOf_table)
  with a show "\<exists>a. parseInt (address c) (Some 16) = Num (int a) \<and>
     privilege c =
      (if 0x100 \<le> a \<and> a \<le> 0x1FF then ''S''
       else if 0x200 \<le> a \<and> a \<le> 0x2FF then ''H''
       else if 0x300 \<le> a \<and> a \<le> 0x3FF then ''M''
       else if 0x500 \<le> a \<and> a \<le> 0x5FF then ''S''
       else if 0x600 \<le> a \<and> a \<le> 0x6FF then ''H''
       else if 0x700 \<le> a \<and> a \<le> 0x7FF then ''M''
       else if 0xB00 \<le> a \<and> a \<le> 0xBFF then ''M''
       else if 0xC00 \<le> a \<and> a \<le> 0xCFF then ''U''
       else if 0xF00 \<le> a then ''M''
       else ''U'')"
    by blast
qed

theorem privilege_table_witness:
  "parseCSVFile ''0x305, \"mtvec\"\<newline>0xC01, \"fflags\"'' =
     [\<lparr>csr_name = ''mtvec'', address = ''0x305'', privilege = ''M'', csr_description = []\<rparr>,
      \<lparr>csr_name = ''fflags'', address = ''0xC01'', privilege = ''U'', csr_description = []\<rparr>]
   \<and> parseInt ''0x305'' (Some 16) = Num 0x305 \<and> parseInt ''0xC01'' (Some 16) = Num 0xC01"
proof -
  have f: "parseCSVFile ''0x305, \"mtvec\"\<newline>0xC01, \"fflags\"'' =
     [\<lparr>csr_name = ''mtvec'', address = ''0x305'', privilege = ''M'', csr_description = []\<rparr>,
      \<lparr>csr_name = ''fflags'', address = ''0xC01'', privilege = ''U'', csr_description = []\<rparr>]"
    by code_simp
  have p: "parseInt ''0x305'' (Some 16) = Num 0x305" "parseInt ''0xC01'' (Some 16) = Num 0xC01"
    by code_simp+
  show ?thesis
    using privilege_table [of "''0x305, \"mtvec\"\<newline>0xC01, \"fflags\"''"] f p by simp
qed

end
